theory Spec2Isabelle
  imports Complex_Main "HOL-Library.Sublist"
begin

section \<open>Strings as the server uses them\<close>

text \<open>
  Strings are lists of 8-bit characters: the code units below 256. The three string
  built-ins that \<^verbatim>\<open>server/index.js\<close> relies on are written out for them:
  \<^verbatim>\<open>toLowerCase\<close>, \<^verbatim>\<open>includes\<close> and \<^verbatim>\<open>trim\<close>.

  The capital letters below 256 are the 26 ASCII ones and, among the accented ones,
  \<open>0xC0\<close> to \<open>0xDE\<close> without the multiplication sign \<open>0xD7\<close>; each has its small letter
  32 places further on.
\<close>

definition capital_letters :: string where
  "capital_letters =
     ''ABCDEFGHIJKLMNOPQRSTUVWXYZ'' @
     [CHR 0xC0, CHR 0xC1, CHR 0xC2, CHR 0xC3, CHR 0xC4, CHR 0xC5, CHR 0xC6, CHR 0xC7,
      CHR 0xC8, CHR 0xC9, CHR 0xCA, CHR 0xCB, CHR 0xCC, CHR 0xCD, CHR 0xCE, CHR 0xCF,
      CHR 0xD0, CHR 0xD1, CHR 0xD2, CHR 0xD3, CHR 0xD4, CHR 0xD5, CHR 0xD6, CHR 0xD8,
      CHR 0xD9, CHR 0xDA, CHR 0xDB, CHR 0xDC, CHR 0xDD, CHR 0xDE]"

definition small_letters :: string where
  "small_letters =
     ''abcdefghijklmnopqrstuvwxyz'' @
     [CHR 0xE0, CHR 0xE1, CHR 0xE2, CHR 0xE3, CHR 0xE4, CHR 0xE5, CHR 0xE6, CHR 0xE7,
      CHR 0xE8, CHR 0xE9, CHR 0xEA, CHR 0xEB, CHR 0xEC, CHR 0xED, CHR 0xEE, CHR 0xEF,
      CHR 0xF0, CHR 0xF1, CHR 0xF2, CHR 0xF3, CHR 0xF4, CHR 0xF5, CHR 0xF6, CHR 0xF8,
      CHR 0xF9, CHR 0xFA, CHR 0xFB, CHR 0xFC, CHR 0xFD, CHR 0xFE]"

definition toLowerCase_char :: "char \<Rightarrow> char" where
  "toLowerCase_char c =
     (case map_of (zip capital_letters small_letters) c of
        Some d \<Rightarrow> d
      | None \<Rightarrow> c)"

definition toLowerCase :: "string \<Rightarrow> string" where
  "toLowerCase s = map toLowerCase_char s"

fun includes_str :: "string \<Rightarrow> string \<Rightarrow> bool" where
  "includes_str [] sub = (sub = [])"
| "includes_str (c # cs) sub = (prefix sub (c # cs) \<or> includes_str cs sub)"

text \<open>
  \<^verbatim>\<open>trim\<close> strips white space and line terminators from both ends; among the
  characters below 256 these are tab, line feed, vertical tab, form feed, carriage
  return, space and the no-break space \<open>0xA0\<close>.
\<close>

definition is_trim_space :: "char \<Rightarrow> bool" where
  "is_trim_space c \<longleftrightarrow>
     c \<in> set [CHR 0x09, CHR 0x0A, CHR 0x0B, CHR 0x0C, CHR 0x0D, CHR 0x20, CHR 0xA0]"

definition trim :: "string \<Rightarrow> string" where
  "trim s = rev (dropWhile is_trim_space (rev (dropWhile is_trim_space s)))"

text \<open>Everything the server can throw, as values.\<close>

datatype error =
    InvalidRepoFormat
  | TypeError
  | Upstream string

section \<open>Model-aware invocation options\<close>

text \<open>
  \<^verbatim>\<open>const OPENAI_MODEL = process.env.OPENAI_MODEL || 'gpt-4o-mini';\<close>
  The environment variable is absent (\<open>None\<close>) or a string; the empty string is falsy.
\<close>

definition OPENAI_MODEL :: "string option \<Rightarrow> string" where
  "OPENAI_MODEL env =
     (case env of None \<Rightarrow> ''gpt-4o-mini''
      | Some s \<Rightarrow> if s = [] then ''gpt-4o-mini'' else s)"

text \<open>\<^verbatim>\<open>const IS_GPT5 = (OPENAI_MODEL || '').toLowerCase().includes('gpt-5');\<close>\<close>

definition IS_GPT5 :: "string option \<Rightarrow> bool" where
  "IS_GPT5 env = includes_str (toLowerCase (OPENAI_MODEL env)) ''gpt-5''"

text \<open>
  The options object handed to \<^verbatim>\<open>openai.responses.create\<close>. The field
  \<open>temperature\<close> is \<open>None\<close> when the property is not set on the object; the
  literal \<^verbatim>\<open>0.2\<close> is kept as the rational \<open>2/10\<close>.
\<close>

record opts =
  model :: string
  input :: string
  temperature :: "rat option"

definition createOpenAIResponse_opts :: "string option \<Rightarrow> string \<Rightarrow> opts" where
  "createOpenAIResponse_opts env inp =
     (let o1 = \<lparr> model = OPENAI_MODEL env, input = inp, temperature = None \<rparr>
      in if \<not> IS_GPT5 env then o1 \<lparr> temperature := Some (2 / 10) \<rparr> else o1)"

section \<open>JSON values and \<^verbatim>\<open>JSON.parse\<close>\<close>

text \<open>
  \<^verbatim>\<open>JSON.parse\<close> is a built-in of the runtime. It is modelled after the JSON
  grammar (ECMA-404): a lexer, then a stack machine over the tokens. \<open>None\<close> stands
  for the \<^verbatim>\<open>SyntaxError\<close> the built-in throws. A number is carried as its
  literal text (no claim depends on its numeric value), an object as its members in
  source order. Of the escapes in a string, \<^verbatim>\<open>\uXXXX\<close> is decoded to the
  character only below 256, since characters are 8-bit here; above that the six
  characters of the escape are kept as written.
\<close>

datatype json =
    JNull
  | JBool bool
  | JNumber string
  | JString string
  | JArray "json list"
  | JObject "(string \<times> json) list"

datatype token =
    LBrace | RBrace | LBrack | RBrack | Colon | Comma
  | TStr string | TNum string | TTrue | TFalse | TNull

definition is_json_ws :: "char \<Rightarrow> bool" where
  "is_json_ws c \<longleftrightarrow> c \<in> set [CHR 0x20, CHR 0x09, CHR 0x0A, CHR 0x0D]"

definition is_digit :: "char \<Rightarrow> bool" where
  "is_digit c \<longleftrightarrow> c \<in> set ''0123456789''"

definition hex_value :: "char \<Rightarrow> nat option" where
  "hex_value c =
     map_of (zip ''0123456789abcdefABCDEF''
       [0, 1, 2, 3, 4, 5, 6, 7, 8, 9, 10, 11, 12, 13, 14, 15, 10, 11, 12, 13, 14, 15]) c"

definition simple_escape :: "char \<Rightarrow> char option" where
  "simple_escape c =
     map_of [(CHR 0x22, CHR 0x22), (CHR 0x5C, CHR 0x5C), (CHR ''/'', CHR ''/''),
             (CHR ''b'', CHR 0x08), (CHR ''f'', CHR 0x0C), (CHR ''n'', CHR 0x0A),
             (CHR ''r'', CHR 0x0D), (CHR ''t'', CHR 0x09)] c"

definition unicode_escape :: "char \<Rightarrow> char \<Rightarrow> char \<Rightarrow> char \<Rightarrow> string option" where
  "unicode_escape a b c d =
     (case (hex_value a, hex_value b, hex_value c, hex_value d) of
        (Some h1, Some h2, Some h3, Some h4) \<Rightarrow>
          if h1 = 0 \<and> h2 = 0 then Some [char_of (16 * h3 + h4)]
          else Some [CHR 0x5C, CHR ''u'', a, b, c, d]
      | _ \<Rightarrow> None)"

text \<open>
  The body of a string literal, read after its opening quote: the decoded text and the
  input left after the closing quote. \<open>acc\<close> holds the decoded text so far, reversed.
\<close>

fun lex_string :: "string \<Rightarrow> string \<Rightarrow> (string \<times> string) option" where
  "lex_string acc [] = None"
| "lex_string acc (c # cs) =
     (if c = CHR 0x22 then Some (rev acc, cs)
      else if c = CHR 0x5C then
        (case cs of
           [] \<Rightarrow> None
         | e # cs' \<Rightarrow>
             (case simple_escape e of
                Some d \<Rightarrow> lex_string (d # acc) cs'
              | None \<Rightarrow>
                  if e = CHR ''u'' then
                    (case cs' of
                       h1 # h2 # h3 # h4 # cs'' \<Rightarrow>
                         (case unicode_escape h1 h2 h3 h4 of
                            Some u \<Rightarrow> lex_string (rev u @ acc) cs''
                          | None \<Rightarrow> None)
                     | _ \<Rightarrow> None)
                  else None))
      else if (of_char c :: nat) < 32 then None
      else lex_string (c # acc) cs)"

text \<open>
  A number literal at the head of the input: its text and the input left. The grammar is
  an optional minus, an integer part without a leading zero (or a single zero), an
  optional fraction and an optional exponent, each with at least one digit.
\<close>

definition lex_number :: "string \<Rightarrow> (string \<times> string) option" where
  "lex_number s =
     (let sign = takeWhile (\<lambda>c. c = CHR ''-'') (take 1 s);
          r0 = drop (length sign) s;
          ip = (if take 1 r0 = ''0'' then ''0'' else takeWhile is_digit r0);
          r1 = drop (length ip) r0;
          fd = (if take 1 r1 = ''.'' then takeWhile is_digit (drop 1 r1) else []);
          fr = (if take 1 r1 = ''.'' then CHR ''.'' # fd else []);
          r2 = drop (length fr) r1;
          e = take 1 r2;
          es = takeWhile (\<lambda>c. c = CHR ''+'' \<or> c = CHR ''-'') (take 1 (drop 1 r2));
          ed = takeWhile is_digit (drop (1 + length es) r2);
          ex = (if e = ''e'' \<or> e = ''E'' then e @ es @ ed else []);
          r3 = drop (length ex) r2
      in if ip = [] then None
         else if take 1 r1 = ''.'' \<and> fd = [] then None
         else if (e = ''e'' \<or> e = ''E'') \<and> ed = [] then None
         else Some (sign @ ip @ fr @ ex, r3))"

text \<open>One token at the head of the input (which does not start with white space).\<close>

definition lex_token :: "string \<Rightarrow> (token \<times> string) option" where
  "lex_token s =
     (case s of
        [] \<Rightarrow> None
      | c # cs \<Rightarrow>
          if c = CHR ''{'' then Some (LBrace, cs)
          else if c = CHR ''}'' then Some (RBrace, cs)
          else if c = CHR ''['' then Some (LBrack, cs)
          else if c = CHR '']'' then Some (RBrack, cs)
          else if c = CHR '':'' then Some (Colon, cs)
          else if c = CHR '','' then Some (Comma, cs)
          else if c = CHR 0x22 then map_option (\<lambda>(t, r). (TStr t, r)) (lex_string [] cs)
          else if c = CHR ''-'' \<or> is_digit c then map_option (\<lambda>(t, r). (TNum t, r)) (lex_number s)
          else if prefix ''true'' s then Some (TTrue, drop 4 s)
          else if prefix ''false'' s then Some (TFalse, drop 5 s)
          else if prefix ''null'' s then Some (TNull, drop 4 s)
          else None)"

text \<open>
  The lexer walks the input once. A token is read where it starts; \<open>skip\<close> counts the
  characters of that token still to be passed over.
\<close>

fun lex :: "nat \<Rightarrow> string \<Rightarrow> token list option" where
  "lex skip [] = Some []"
| "lex (Suc k) (c # cs) = lex k cs"
| "lex 0 (c # cs) =
     (if is_json_ws c then lex 0 cs
      else
        (case lex_token (c # cs) of
           None \<Rightarrow> None
         | Some (t, rest) \<Rightarrow> map_option ((#) t) (lex (length cs - length rest) cs)))"

text \<open>
  The parser is a stack machine that reads one token at a time. Its modes: \<open>Value\<close>
  expects a value; \<open>ArrStart\<close> and \<open>ObjStart\<close> follow an opening bracket or brace
  (where the closing one may come at once); \<open>Key acc\<close> expects the next key of an
  object whose members so far are \<open>acc\<close>; \<open>ColonExp\<close> expects the colon after a key;
  \<open>After v\<close> has just completed the value \<open>v\<close>. A frame of the stack is an array or
  an object under construction: its members so far, reversed, and for an object the
  key whose value is being read.
\<close>

datatype frame = FArr "json list" | FObj "(string \<times> json) list" string

datatype mode = Value | ArrStart | ObjStart | Key "(string \<times> json) list" | ColonExp | After json

definition step_value :: "frame list \<Rightarrow> token \<Rightarrow> (mode \<times> frame list) option" where
  "step_value st t =
     (case t of
        TNull \<Rightarrow> Some (After JNull, st)
      | TTrue \<Rightarrow> Some (After (JBool True), st)
      | TFalse \<Rightarrow> Some (After (JBool False), st)
      | TNum n \<Rightarrow> Some (After (JNumber n), st)
      | TStr s \<Rightarrow> Some (After (JString s), st)
      | LBrack \<Rightarrow> Some (ArrStart, st)
      | LBrace \<Rightarrow> Some (ObjStart, st)
      | _ \<Rightarrow> None)"

definition step :: "mode \<Rightarrow> frame list \<Rightarrow> token \<Rightarrow> (mode \<times> frame list) option" where
  "step m st t =
     (case m of
        Value \<Rightarrow> step_value st t
      | ArrStart \<Rightarrow>
          (case t of
             RBrack \<Rightarrow> Some (After (JArray []), st)
           | _ \<Rightarrow> step_value (FArr [] # st) t)
      | ObjStart \<Rightarrow>
          (case t of
             RBrace \<Rightarrow> Some (After (JObject []), st)
           | TStr k \<Rightarrow> Some (ColonExp, FObj [] k # st)
           | _ \<Rightarrow> None)
      | Key acc \<Rightarrow>
          (case t of
             TStr k \<Rightarrow> Some (ColonExp, FObj acc k # st)
           | _ \<Rightarrow> None)
      | ColonExp \<Rightarrow>
          (case t of
             Colon \<Rightarrow> Some (Value, st)
           | _ \<Rightarrow> None)
      | After v \<Rightarrow>
          (case st of
             [] \<Rightarrow> None
           | FArr acc # st' \<Rightarrow>
               (case t of
                  Comma \<Rightarrow> Some (Value, FArr (v # acc) # st')
                | RBrack \<Rightarrow> Some (After (JArray (rev (v # acc))), st')
                | _ \<Rightarrow> None)
           | FObj acc k # st' \<Rightarrow>
               (case t of
                  Comma \<Rightarrow> Some (Key ((k, v) # acc), st')
                | RBrace \<Rightarrow> Some (After (JObject (rev ((k, v) # acc))), st')
                | _ \<Rightarrow> None)))"

text \<open>The input is accepted when it ends right after a complete top-level value.\<close>

fun parse_tokens :: "mode \<Rightarrow> frame list \<Rightarrow> token list \<Rightarrow> json option" where
  "parse_tokens m st [] = (case (m, st) of (After v, []) \<Rightarrow> Some v | _ \<Rightarrow> None)"
| "parse_tokens m st (t # ts) =
     (case step m st t of
        None \<Rightarrow> None
      | Some (m', st') \<Rightarrow> parse_tokens m' st' ts)"

definition JSON_parse :: "string \<Rightarrow> json option" where
  "JSON_parse text = (case lex 0 text of None \<Rightarrow> None | Some ts \<Rightarrow> parse_tokens Value [] ts)"

section \<open>Per-commit summarizer\<close>

text \<open>A file of a commit, as the enrichment loop shapes it.\<close>

record FileChange =
  filename :: string
  status :: string
  additions :: nat
  deletions :: nat
  changes :: nat
  patch :: string

text \<open>
  The model's reply: \<^verbatim>\<open>resp.output_text\<close> is a string or absent.
\<close>

record response =
  output_text :: "string option"

text \<open>The object of the \<^verbatim>\<open>catch\<close> branch of \<^verbatim>\<open>summarizeCommit\<close>.\<close>

definition fallback_summary :: "FileChange list \<Rightarrow> json" where
  "fallback_summary files =
     JObject
       [(''summary'', JString ''Could not parse summary (model returned non-JSON).''),
        (''change_type'', JString ''other''),
        (''areas'', JArray []),
        (''risk'', JString ''low''),
        (''test_impact'', JString ''N/A''),
        (''notable_files'', JArray (map (\<lambda>f. JString (filename f)) (take 3 files)))]"

text \<open>
  \<^verbatim>\<open>summarizeCommit\<close>, given the outcome of \<^verbatim>\<open>await createOpenAIResponse(prompt)\<close>:
  a rejected call (\<open>Inl\<close>) is outside the \<^verbatim>\<open>try\<close> and propagates; inside it,
  \<^verbatim>\<open>resp.output_text?.trim() || ''\<close> is parsed and the parsed value is returned as it
  is, and only a throwing \<^verbatim>\<open>JSON.parse\<close> leads to the fallback object.
\<close>

definition reply_text :: "response \<Rightarrow> string" where
  "reply_text resp = (case output_text resp of None \<Rightarrow> [] | Some t \<Rightarrow> trim t)"

definition summarizeCommit :: "error + response \<Rightarrow> FileChange list \<Rightarrow> error + json" where
  "summarizeCommit reply files =
     (case reply of
        Inl e \<Rightarrow> Inl e
      | Inr resp \<Rightarrow>
          (let text = reply_text resp
           in case JSON_parse text of
                Some parsed \<Rightarrow> Inr parsed
              | None \<Rightarrow> Inr (fallback_summary files)))"

section \<open>Repo reference parser\<close>








section \<open>Progress channel registry\<close>

text \<open>
  \<^verbatim>\<open>const channels = new Map(); // id -> { res?, buffer: string[] }\<close>
  A response stream is named by a number; \<open>written\<close> records what has been written to
  each stream, in order. \<open>now\<close> is the reading of \<^verbatim>\<open>Date.now()\<close>.
\<close>

datatype sse = Data nat string | Ready nat | Done nat

record channel =
  res :: "nat option"
  buffer :: "string list"

record registry =
  channels :: "string \<rightharpoonup> channel"
  written :: "nat \<Rightarrow> sse list"

definition empty_registry :: registry where
  "empty_registry = \<lparr> channels = Map.empty, written = (\<lambda>_. []) \<rparr>"

text \<open>\<^verbatim>\<open>channels.get(id) || { buffer: [] }\<close>\<close>

definition channel_or_new :: "registry \<Rightarrow> string \<Rightarrow> channel" where
  "channel_or_new st i =
     (case channels st i of Some ch \<Rightarrow> ch | None \<Rightarrow> \<lparr> res = None, buffer = [] \<rparr>)"

definition res_write :: "nat \<Rightarrow> sse list \<Rightarrow> registry \<Rightarrow> registry" where
  "res_write r evs st = st \<lparr> written := (written st)(r := written st r @ evs) \<rparr>"

text \<open>
  \<^verbatim>\<open>progressSend(id, text)\<close>. The request id is absent or a string; absent and the
  empty string are falsy. With a live subscriber the event is written to it and the
  buffer is left alone; without one the text goes to the buffer, which drops its oldest
  entry once it holds more than 2000.
\<close>

definition progressSend :: "nat \<Rightarrow> string option \<Rightarrow> string \<Rightarrow> registry \<Rightarrow> registry" where
  "progressSend now rid text st =
     (case rid of
        None \<Rightarrow> st
      | Some i \<Rightarrow>
          if i = [] then st
          else
            (let ch = channel_or_new st i
             in case res ch of
                  Some r \<Rightarrow> (res_write r [Data now text] st) \<lparr> channels := (channels st)(i \<mapsto> ch) \<rparr>
                | None \<Rightarrow>
                    (let b = buffer ch @ [text];
                         b' = (if length b > 2000 then tl b else b)
                     in st \<lparr> channels := (channels st)(i \<mapsto> ch \<lparr> buffer := b' \<rparr>) \<rparr>)))"

text \<open>\<^verbatim>\<open>progressDone(id)\<close>\<close>

definition progressDone :: "nat \<Rightarrow> string option \<Rightarrow> registry \<Rightarrow> registry" where
  "progressDone now rid st =
     (case rid of
        None \<Rightarrow> st
      | Some i \<Rightarrow>
          (let st' = (case channels st i of
                        Some ch \<Rightarrow> (case res ch of Some r \<Rightarrow> res_write r [Done now] st | None \<Rightarrow> st)
                      | None \<Rightarrow> st)
           in st' \<lparr> channels := (channels st')(i := None) \<rparr>))"

text \<open>
  \<^verbatim>\<open>app.get('/api/progress/:id')\<close>: the stream \<open>r\<close> becomes the channel's
  subscriber, the buffer is replayed to it (and kept), then the ready marker follows.
  The keep-alive comment lines that a timer writes every 15 seconds carry no event and
  are left out.
\<close>

definition subscribe :: "nat \<Rightarrow> string \<Rightarrow> nat \<Rightarrow> registry \<Rightarrow> registry" where
  "subscribe now i r st =
     (let ch = (channel_or_new st i) \<lparr> res := Some r \<rparr>
      in res_write r (map (Data now) (buffer ch) @ [Ready now])
           (st \<lparr> channels := (channels st)(i \<mapsto> ch) \<rparr>))"

text \<open>The handler of the request's \<^verbatim>\<open>close\<close> event.\<close>

definition disconnect :: "string \<Rightarrow> nat \<Rightarrow> registry \<Rightarrow> registry" where
  "disconnect i r st =
     (case channels st i of
        Some ch \<Rightarrow>
          if res ch = Some r then st \<lparr> channels := (channels st)(i \<mapsto> ch \<lparr> res := None \<rparr>) \<rparr>
          else st
      | None \<Rightarrow> st)"

text \<open>The buffer of a channel, empty for a channel that does not exist yet.\<close>

definition channel_buffer :: "registry \<Rightarrow> string \<Rightarrow> string list" where
  "channel_buffer st i = buffer (channel_or_new st i)"

section \<open>Commit collector\<close>

text \<open>
  An entry of the hosting API's commit list. \<open>parents\<close> is absent or an array of
  parent hashes; \<open>author\<close> and \<open>committer\<close> (the entry's \<^verbatim>\<open>commit.author\<close> and
  \<^verbatim>\<open>commit.committer\<close>) are absent or carry a name and a date. A date is carried
  as the instant its ISO-8601 text denotes, in milliseconds since the epoch (what
  \<^verbatim>\<open>new Date(text)\<close> reads from it); a text that denotes no date is not modelled.
\<close>

record person =
  name :: "string option"
  date :: "int option"

record commit =
  sha :: string
  parents :: "string list option"
  author :: "person option"
  committer :: "person option"
  message :: string

text \<open>
  \<^verbatim>\<open>Array.isArray(commit.parents) && commit.parents.length > 1\<close>
\<close>

definition isMergeCommit :: "commit \<Rightarrow> bool" where
  "isMergeCommit c = (case parents c of None \<Rightarrow> False | Some ps \<Rightarrow> length ps > 1)"

text \<open>
  \<^verbatim>\<open>new Date(c.commit.author?.date || c.commit.committer?.date || 0)\<close>
\<close>

definition person_date :: "person option \<Rightarrow> int option" where
  "person_date p = (case p of None \<Rightarrow> None | Some q \<Rightarrow> date q)"

definition commit_time :: "commit \<Rightarrow> int" where
  "commit_time c =
     (case person_date (author c) of
        Some d \<Rightarrow> d
      | None \<Rightarrow> (case person_date (committer c) of Some d \<Rightarrow> d | None \<Rightarrow> 0))"

text \<open>
  The repository as the hosting API shows it for the requested window: the branch
  names, and the commit list of each branch. Each call can fail.
\<close>

record repo_state =
  listBranches :: "error + string list"
  listCommits :: "string \<Rightarrow> error + commit list"

definition ANY_BRANCH :: string where
  "ANY_BRANCH = ''__ANY__''"

definition DEFAULT_BRANCH :: string where
  "DEFAULT_BRANCH = ''main''"

text \<open>
  \<^verbatim>\<open>seen\<close> is a \<^verbatim>\<open>Map\<close> from hash to commit; a \<^verbatim>\<open>Map\<close> keeps its
  entries in insertion order, so it is a list of pairs, and a new key goes to the end.
\<close>

type_synonym seen_map = "(string \<times> commit) list"

definition seen_has :: "seen_map \<Rightarrow> string \<Rightarrow> bool" where
  "seen_has seen k \<longleftrightarrow> k \<in> fst ` set seen"

text \<open>
  The inner loop over one branch's list:
  \<^verbatim>\<open>
  for (const c of list) {
    if (!includeMerges && isMergeCommit(c)) continue;
    if (!seen.has(c.sha)) {
      seen.set(c.sha, c);
      if (seen.size >= maxCommits) break;
    }
  }\<close>
\<close>

fun collect_list :: "bool \<Rightarrow> int \<Rightarrow> seen_map \<Rightarrow> commit list \<Rightarrow> seen_map" where
  "collect_list includeMerges maxCommits seen [] = seen"
| "collect_list includeMerges maxCommits seen (c # cs) =
     (if \<not> includeMerges \<and> isMergeCommit c then collect_list includeMerges maxCommits seen cs
      else if \<not> seen_has seen (sha c) then
        (let seen' = seen @ [(sha c, c)]
         in if int (length seen') \<ge> maxCommits then seen'
            else collect_list includeMerges maxCommits seen' cs)
      else collect_list includeMerges maxCommits seen cs)"

text \<open>
  The outer loop over the branch names; after each branch,
  \<^verbatim>\<open>if (seen.size >= maxCommits) break;\<close>. A failing list call aborts the run.
\<close>

fun collect_branches ::
  "bool \<Rightarrow> int \<Rightarrow> (string \<Rightarrow> error + commit list) \<Rightarrow> seen_map \<Rightarrow> string list \<Rightarrow> error + seen_map"
where
  "collect_branches includeMerges maxCommits lc seen [] = Inr seen"
| "collect_branches includeMerges maxCommits lc seen (bname # names) =
     (case lc bname of
        Inl e \<Rightarrow> Inl e
      | Inr list \<Rightarrow>
          (let seen' = collect_list includeMerges maxCommits seen list
           in if int (length seen') \<ge> maxCommits then Inr seen'
              else collect_branches includeMerges maxCommits lc seen' names))"

text \<open>
  \<^verbatim>\<open>commits.sort((a,b) => new Date(b...) - new Date(a...))\<close>: the built-in sort is
  stable, and the comparator orders by time, latest first. \<open>sort_key\<close> is the stable
  insertion sort of the library.
\<close>

definition sort_by_date_desc :: "commit list \<Rightarrow> commit list" where
  "sort_by_date_desc commits = sort_key (\<lambda>c. - commit_time c) commits"

definition collect_any :: "repo_state \<Rightarrow> bool \<Rightarrow> int \<Rightarrow> error + commit list" where
  "collect_any rs includeMerges maxCommits =
     (case listBranches rs of
        Inl e \<Rightarrow> Inl e
      | Inr names \<Rightarrow>
          (case collect_branches includeMerges maxCommits (listCommits rs) [] names of
             Inl e \<Rightarrow> Inl e
           | Inr seen \<Rightarrow> Inr (sort_by_date_desc (map snd seen))))"

text \<open>
  \<^verbatim>\<open>xs.slice(0, end)\<close> for an integer \<open>end\<close>: a negative end counts from the end of
  the array.
\<close>

definition slice0 :: "int \<Rightarrow> 'a list \<Rightarrow> 'a list" where
  "slice0 e xs = (if e < 0 then take (nat (int (length xs) + e)) xs else take (nat e) xs)"

text \<open>
  The single-branch path, with \<^verbatim>\<open>const shaParam = branch || DEFAULT_BRANCH;\<close>
  \<^verbatim>\<open>(includeMerges ? listed : listed.filter(c => !isMergeCommit(c)))
     .slice(0, Math.min(maxCommits, listed.length))\<close>
\<close>

definition shaParam :: "string option \<Rightarrow> string" where
  "shaParam branch =
     (case branch of None \<Rightarrow> DEFAULT_BRANCH | Some b \<Rightarrow> if b = [] then DEFAULT_BRANCH else b)"

definition collect_single :: "repo_state \<Rightarrow> string option \<Rightarrow> bool \<Rightarrow> int \<Rightarrow> error + commit list" where
  "collect_single rs branch includeMerges maxCommits =
     (case listCommits rs (shaParam branch) of
        Inl e \<Rightarrow> Inl e
      | Inr listed \<Rightarrow>
          Inr (slice0 (min maxCommits (int (length listed)))
                 (if includeMerges then listed
                  else filter (\<lambda>c. \<not> isMergeCommit c) listed)))"

text \<open>The collection step of \<^verbatim>\<open>/api/analyze\<close>. Progress narration is a side channel
  (the registry above) and is left out of this function.\<close>

definition collect_commits :: "repo_state \<Rightarrow> string option \<Rightarrow> bool \<Rightarrow> int \<Rightarrow> error + commit list" where
  "collect_commits rs branch includeMerges maxCommits =
     (if branch = Some ANY_BRANCH then collect_any rs includeMerges maxCommits
      else collect_single rs branch includeMerges maxCommits)"

text \<open>
  Notions used to state properties of the collector: the commits of a list that pass
  the merge filter, and the commits of a list that are first with their hash and whose
  hash is not in \<open>K\<close> (what a loop without a cap adds to a map with the keys \<open>K\<close>).
\<close>

definition kept :: "bool \<Rightarrow> commit list \<Rightarrow> commit list" where
  "kept includeMerges cs = filter (\<lambda>c. includeMerges \<or> \<not> isMergeCommit c) cs"

fun new_firsts :: "string set \<Rightarrow> commit list \<Rightarrow> commit list" where
  "new_firsts K [] = []"
| "new_firsts K (c # cs) =
     (if sha c \<in> K then new_firsts K cs else c # new_firsts (insert (sha c) K) cs)"

definition entries :: "commit list \<Rightarrow> seen_map" where
  "entries cs = map (\<lambda>c. (sha c, c)) cs"

text \<open>
  A commit is first listed by the branches \<open>names\<close> when it passes the filter in the
  list of some branch, and no branch enumerated earlier lists a commit with that hash
  that passes the filter.
\<close>

definition first_listed ::
  "bool \<Rightarrow> (string \<Rightarrow> error + commit list) \<Rightarrow> string list \<Rightarrow> commit \<Rightarrow> bool" where
  "first_listed im lc names c \<longleftrightarrow>
     (\<exists>i l. i < length names \<and> lc (names ! i) = Inr l \<and> c \<in> set (kept im l) \<and>
        (\<forall>j l'. j < i \<and> lc (names ! j) = Inr l' \<longrightarrow> sha c \<notin> sha ` set (kept im l')))"

text \<open>
  A hash is a content hash, so two listed commits with the same hash are the same
  commit. Of this, the properties below use that the hash decides whether a commit is a
  merge, or that it decides the whole entry.
\<close>

definition sha_decides_merge :: "commit set \<Rightarrow> bool" where
  "sha_decides_merge S \<longleftrightarrow>
     (\<forall>c \<in> S. \<forall>c' \<in> S. sha c = sha c' \<longrightarrow> isMergeCommit c \<longrightarrow> isMergeCommit c')"

text \<open>
  The commits that the branches \<open>names\<close> list and that pass the merge filter; the
  branches a request selects; the commits these branches list.
\<close>

definition listed_by :: "bool \<Rightarrow> (string \<Rightarrow> error + commit list) \<Rightarrow> string list \<Rightarrow> commit set" where
  "listed_by im lc names =
     \<Union> ((\<lambda>b. case lc b of Inl e \<Rightarrow> {} | Inr l \<Rightarrow> set (kept im l)) ` set names)"

definition branch_names :: "repo_state \<Rightarrow> string list" where
  "branch_names rs = (case listBranches rs of Inl e \<Rightarrow> [] | Inr names \<Rightarrow> names)"

definition selected_branches :: "repo_state \<Rightarrow> string option \<Rightarrow> string list" where
  "selected_branches rs branch =
     (if branch = Some ANY_BRANCH then branch_names rs else [shaParam branch])"

definition selected_commits :: "repo_state \<Rightarrow> string option \<Rightarrow> commit set" where
  "selected_commits rs branch = listed_by True (listCommits rs) (selected_branches rs branch)"

section \<open>Enrichment loop\<close>

text \<open>
  The loop fetches the detail of each collected commit in order,
  \<^verbatim>\<open>octokit.rest.repos.getCommit({ owner, repo: repoName, ref: c.sha })\<close>, and then
  runs the rest of its body on it (shaping the files, summarizing, counting). The
  first component of the result lists the hashes whose detail was requested; a throwing
  fetch or body ends the run.
\<close>

fun enrich ::
  "(string \<Rightarrow> error + 'd) \<Rightarrow> (commit \<Rightarrow> 'd \<Rightarrow> error + 'r) \<Rightarrow> commit list \<Rightarrow> string list \<times> (error + 'r list)"
where
  "enrich getCommit body [] = ([], Inr [])"
| "enrich getCommit body (c # cs) =
     (case getCommit (sha c) of
        Inl e \<Rightarrow> ([sha c], Inl e)
      | Inr detail \<Rightarrow>
          (case body c detail of
             Inl e \<Rightarrow> ([sha c], Inl e)
           | Inr r \<Rightarrow>
               (let (fetched, rest) = enrich getCommit body cs
                in (sha c # fetched, map_sum id ((#) r) rest))))"

section \<open>Aggregator: top areas\<close>

text \<open>
  \<^verbatim>\<open>areaCounts\<close> is a \<^verbatim>\<open>Map\<close> from area tag to count, in insertion order;
  setting a key that is present keeps its place.
  \<^verbatim>\<open>areaCounts.set(a, (areaCounts.get(a) || 0) + 1)\<close>
\<close>

fun areaCounts_bump :: "(string \<times> nat) list \<Rightarrow> string \<Rightarrow> (string \<times> nat) list" where
  "areaCounts_bump [] a = [(a, 1)]"
| "areaCounts_bump ((k, n) # m) a =
     (if k = a then (k, n + 1) # m else (k, n) # areaCounts_bump m a)"

text \<open>\<^verbatim>\<open>(ai.areas || []).forEach(...)\<close> for the area tags of one commit, and the
  loop over the commits.\<close>

definition areaCounts_commit :: "(string \<times> nat) list \<Rightarrow> string list \<Rightarrow> (string \<times> nat) list" where
  "areaCounts_commit m areas = foldl areaCounts_bump m areas"

definition areaCounts_all :: "string list list \<Rightarrow> (string \<times> nat) list" where
  "areaCounts_all areas_per_commit = foldl areaCounts_commit [] areas_per_commit"

text \<open>
  \<^verbatim>\<open>[...areaCounts.entries()].sort((a,b)=>b[1]-a[1]).map(([k]) => k)\<close> and
  \<^verbatim>\<open>sortedAreas.slice(0, 10)\<close>
\<close>

definition sortedAreas :: "(string \<times> nat) list \<Rightarrow> string list" where
  "sortedAreas m = map fst (sort_key (\<lambda>(k, n). - int n) m)"

definition topAreas :: "string list list \<Rightarrow> string list" where
  "topAreas areas_per_commit = take 10 (sortedAreas (areaCounts_all areas_per_commit))"

text \<open>
  The specification of \<open>topAreas\<close> in its own words: the distinct tags, in the order in
  which they are first seen, sorted by descending frequency with a stable sort, cut to
  ten.
\<close>

fun first_seen :: "'a list \<Rightarrow> 'a list" where
  "first_seen [] = []"
| "first_seen (x # xs) = x # first_seen (filter (\<lambda>y. y \<noteq> x) xs)"

definition spec_topAreas :: "string list \<Rightarrow> string list" where
  "spec_topAreas tags =
     take 10 (sort_key (\<lambda>t. - int (count_list tags t)) (first_seen tags))"

section \<open>Sample data\<close>

text \<open>Concrete values at which the theorems below are instantiated.\<close>

definition file_named :: "string \<Rightarrow> FileChange" where
  "file_named n = \<lparr> filename = n, status = ''modified'', additions = 1, deletions = 0,
                    changes = 1, patch = [] \<rparr>"

definition commit_at :: "string \<Rightarrow> string list \<Rightarrow> int \<Rightarrow> commit" where
  "commit_at h ps t =
     \<lparr> sha = h, parents = Some ps, author = Some \<lparr> name = Some ''dev'', date = Some t \<rparr>,
       committer = None, message = ''change'' \<rparr>"

text \<open>
  A repository with two branches. \<open>main\<close> lists the commits \<open>a1\<close>, the merge \<open>m1\<close> and
  \<open>b1\<close>; \<open>dev\<close> lists \<open>d1\<close> and, again, \<open>a1\<close>.
\<close>

definition sample_repo :: repo_state where
  "sample_repo =
     \<lparr> listBranches = Inr [''main'', ''dev''],
       listCommits = (\<lambda>b.
         if b = ''main'' then
           Inr [commit_at ''a1'' [''p''] 30, commit_at ''m1'' [''p'', ''q''] 20, commit_at ''b1'' [''p''] 10]
         else if b = ''dev'' then Inr [commit_at ''d1'' [''p''] 40, commit_at ''a1'' [''p''] 30]
         else Inl (Upstream ''Not Found'')) \<rparr>"

section \<open>Properties of the model-aware invocation\<close>

lemma includes_str_iff: "includes_str s sub \<longleftrightarrow> (\<exists>pre post. s = pre @ sub @ post)"
proof (induction s)
  case Nil
  then show ?case by auto
next
  case (Cons c cs)
  show ?case
  proof
    assume "includes_str (c # cs) sub"
    then consider "prefix sub (c # cs)" | "includes_str cs sub" by auto
    then show "\<exists>pre post. c # cs = pre @ sub @ post"
    proof cases
      case 1
      then obtain post where "c # cs = sub @ post" by (auto simp: prefix_def)
      then have "c # cs = [] @ sub @ post" by simp
      then show ?thesis by blast
    next
      case 2
      with Cons.IH obtain pre post where "cs = pre @ sub @ post" by blast
      then have "c # cs = (c # pre) @ sub @ post" by simp
      then show ?thesis by blast
    qed
  next
    assume "\<exists>pre post. c # cs = pre @ sub @ post"
    then obtain pre post where e: "c # cs = pre @ sub @ post" by blast
    show "includes_str (c # cs) sub"
    proof (cases pre)
      case Nil
      with e have "c # cs = sub @ post" by simp
      then have "prefix sub (c # cs)" by (rule prefixI)
      then show ?thesis by simp
    next
      case (Cons p ps)
      with e have "cs = ps @ sub @ post" by simp
      with Cons.IH show ?thesis by auto
    qed
  qed
qed

lemma includes_str_map:
  "includes_str (map f s) sub \<longleftrightarrow> (\<exists>pre mid post. s = pre @ mid @ post \<and> map f mid = sub)"
proof
  assume "includes_str (map f s) sub"
  then obtain p q where "map f s = p @ sub @ q" unfolding includes_str_iff by blast
  then obtain us vs where s: "s = us @ vs" and "p = map f us" and "sub @ q = map f vs"
    unfolding map_eq_append_conv by blast
  then obtain mid post where "vs = mid @ post" and "sub = map f mid"
    by (metis map_eq_append_conv)
  with s show "\<exists>pre mid post. s = pre @ mid @ post \<and> map f mid = sub" by blast
next
  assume "\<exists>pre mid post. s = pre @ mid @ post \<and> map f mid = sub"
  then obtain pre mid post where "s = pre @ mid @ post" and "map f mid = sub" by blast
  then have "map f s = map f pre @ sub @ map f post" by simp
  then show "includes_str (map f s) sub" unfolding includes_str_iff by blast
qed

lemma createOpenAIResponse_opts_fields:
  "model (createOpenAIResponse_opts env inp) = OPENAI_MODEL env"
  "input (createOpenAIResponse_opts env inp) = inp"
  by (simp_all add: createOpenAIResponse_opts_def Let_def)

lemma temperature_examples:
  "temperature (createOpenAIResponse_opts (Some ''gpt-5-mini'') inp) = None"
  "temperature (createOpenAIResponse_opts (Some ''gpt-5o'') inp) = None"
  "temperature (createOpenAIResponse_opts (Some ''GPT-5'') inp) = None"
  "temperature (createOpenAIResponse_opts (Some ''gpt-4o-mini'') inp) = Some (2 / 10)"
  "temperature (createOpenAIResponse_opts None inp) = Some (2 / 10)"
  by (simp_all add: createOpenAIResponse_opts_def IS_GPT5_def OPENAI_MODEL_def toLowerCase_def
      toLowerCase_char_def capital_letters_def small_letters_def)

text \<open>
  C4. The options of a model invocation carry no temperature exactly when the
  configured model name has a part that reads \<^verbatim>\<open>gpt-5\<close> once its letters are
  lower-cased; every other model name gets the temperature 0.2. The per-commit and the
  period-rollup invocations both build their options with
  \<^verbatim>\<open>createOpenAIResponse\<close>, each with its own prompt as \<open>inp\<close>, so the rule is
  the same for both.
\<close>

theorem temperature_omitted_iff_gpt5:
  "temperature (createOpenAIResponse_opts env inp) =
     (if (\<exists>pre mid post. OPENAI_MODEL env = pre @ mid @ post \<and> toLowerCase mid = ''gpt-5'')
      then None else Some (2 / 10))"
proof -
  have "IS_GPT5 env \<longleftrightarrow>
      (\<exists>pre mid post. OPENAI_MODEL env = pre @ mid @ post \<and> toLowerCase mid = ''gpt-5'')"
    unfolding IS_GPT5_def toLowerCase_def by (rule includes_str_map)
  then show ?thesis by (simp add: createOpenAIResponse_opts_def Let_def)
qed

section \<open>Properties of the repo reference parser\<close>

subsection \<open>Runs of characters up to a slash\<close>



lemma count_mem: "d \<in> set xs \<Longrightarrow> 1 \<le> length (filter (\<lambda>c. c = d) xs)"
  by (induction xs) auto






lemma dropWhile_none: "d \<notin> set xs \<Longrightarrow> dropWhile (\<lambda>c. c \<noteq> d) xs = []"
  by (induction xs) auto






subsection \<open>The host literal\<close>





subsection \<open>What a match of either pattern looks like\<close>












subsection \<open>The patterns and their grammars\<close>





subsection \<open>A URL with the host literal\<close>







subsection \<open>The three shapes of input\<close>









section \<open>Properties of the per-commit summarizer\<close>

lemma JSON_parse_empty: "JSON_parse [] = None"
  by (simp add: JSON_parse_def)

text \<open>
  A reply that is valid JSON but not of the summary's shape is returned as parsed: the
  empty array comes back as the empty array, not as the fallback object.
\<close>

theorem summarizeCommit_wrong_shape_counterexample:
  "summarizeCommit (Inr \<lparr> output_text = Some ''[]'' \<rparr>) [file_named ''a.js''] = Inr (JArray []) \<and>
   Inr (JArray []) \<noteq> (Inr (fallback_summary [file_named ''a.js'']) :: error + json)"
  by (simp add: summarizeCommit_def reply_text_def trim_def is_trim_space_def JSON_parse_def
      lex_token_def is_json_ws_def is_digit_def step_def step_value_def fallback_summary_def)

text \<open>
  C1, as the code has it. For a received model reply whose trimmed text
  \<^verbatim>\<open>JSON.parse\<close> rejects, and so for an absent or empty text, the result is exactly
  the fallback object (with the first three file names). For a reply whose text is
  valid JSON, of whatever shape, the result is the parsed value as it is. In both cases
  \<^verbatim>\<open>summarizeCommit\<close> returns a value and does not throw.
\<close>

theorem summarizeCommit_parse_or_fallback:
  "(JSON_parse (reply_text resp) = None \<longrightarrow>
      summarizeCommit (Inr resp) files = Inr (fallback_summary files)) \<and>
   (reply_text resp = [] \<longrightarrow>
      summarizeCommit (Inr resp) files = Inr (fallback_summary files)) \<and>
   (\<forall>v. JSON_parse (reply_text resp) = Some v \<longrightarrow> summarizeCommit (Inr resp) files = Inr v) \<and>
   (\<exists>v. summarizeCommit (Inr resp) files = Inr v)"
  by (cases "JSON_parse (reply_text resp)")
     (auto simp: summarizeCommit_def Let_def JSON_parse_empty)

theorem summarizeCommit_parse_or_fallback_witness:
  "summarizeCommit (Inr \<lparr> output_text = Some '' {'' \<rparr>)
       [file_named ''a.js'', file_named ''b.js'', file_named ''c.js'', file_named ''d.js''] =
     Inr (JObject
       [(''summary'', JString ''Could not parse summary (model returned non-JSON).''),
        (''change_type'', JString ''other''),
        (''areas'', JArray []),
        (''risk'', JString ''low''),
        (''test_impact'', JString ''N/A''),
        (''notable_files'', JArray [JString ''a.js'', JString ''b.js'', JString ''c.js''])]) \<and>
   summarizeCommit (Inr \<lparr> output_text = None \<rparr>) [] = Inr (fallback_summary []) \<and>
   summarizeCommit (Inr \<lparr> output_text = Some ''null'' \<rparr>) [] = Inr JNull"
proof -
  have 1: "JSON_parse (reply_text \<lparr> output_text = Some '' {'' \<rparr>) = None"
    by (simp add: reply_text_def trim_def is_trim_space_def JSON_parse_def lex_token_def
        is_json_ws_def is_digit_def step_def step_value_def)
  have 2: "reply_text \<lparr> output_text = None \<rparr> = []"
    by (simp add: reply_text_def)
  have 3: "JSON_parse (reply_text \<lparr> output_text = Some ''null'' \<rparr>) = Some JNull"
    by (simp add: reply_text_def trim_def is_trim_space_def JSON_parse_def lex_token_def
        is_json_ws_def is_digit_def step_def step_value_def)
  from 1 2 3
    summarizeCommit_parse_or_fallback[of "\<lparr> output_text = Some '' {'' \<rparr>"
      "[file_named ''a.js'', file_named ''b.js'', file_named ''c.js'', file_named ''d.js'']"]
    summarizeCommit_parse_or_fallback[of "\<lparr> output_text = None \<rparr>" "[]"]
    summarizeCommit_parse_or_fallback[of "\<lparr> output_text = Some ''null'' \<rparr>" "[]"]
  show ?thesis
    by (simp add: fallback_summary_def file_named_def)
qed

section \<open>Properties of the progress channel registry\<close>

text \<open>
  An event sent while a subscriber is attached is written to that subscriber only. The
  buffer does not receive it, and a subscriber that attaches after the first one has
  disconnected is replayed nothing but the ready marker.
\<close>

theorem progressSend_attached_counterexample:
  "channel_buffer (progressSend 2 (Some ''run-1'') ''step'' (subscribe 1 ''run-1'' 0 empty_registry))
     ''run-1'' = [] \<and>
   written (subscribe 4 ''run-1'' 1
      (disconnect ''run-1'' 0
        (progressSend 2 (Some ''run-1'') ''step'' (subscribe 1 ''run-1'' 0 empty_registry)))) 1
     = [Ready 4]"
  by (simp add: channel_buffer_def channel_or_new_def progressSend_def subscribe_def
      disconnect_def empty_registry_def res_write_def Let_def)

lemma buffer_cap_latest:
  assumes "length xs \<le> n"
  shows "(if length (xs @ [x]) > n then tl (xs @ [x]) else xs @ [x]) =
           drop (length (xs @ [x]) - n) (xs @ [x])"
proof (cases "length (xs @ [x]) > n")
  case True
  with assms have "length (xs @ [x]) - n = 1" by simp
  moreover have "drop 1 (xs @ [x]) = tl (xs @ [x])" by (simp only: One_nat_def drop_Suc drop_0)
  ultimately show ?thesis using True by (simp only: if_True)
next
  case False
  then show ?thesis by simp
qed

lemma progressSend_falsy_id:
  "progressSend now None text st = st" "progressSend now (Some []) text st = st"
  by (simp_all add: progressSend_def)

lemma subscribe_replays_buffer:
  "written (subscribe now i r st) r =
     written st r @ map (Data now) (channel_buffer st i) @ [Ready now]"
  "channel_buffer (subscribe now i r st) i = channel_buffer st i"
  by (simp_all add: subscribe_def res_write_def channel_buffer_def channel_or_new_def Let_def)

lemma disconnect_keeps_buffer:
  "channel_buffer (disconnect i r st) j = channel_buffer st j"
  by (simp add: disconnect_def channel_buffer_def channel_or_new_def split: option.splits)

lemma progressSend_buffer_bound:
  assumes "length (channel_buffer st i) \<le> 2000"
  shows "length (channel_buffer (progressSend now rid text st) i) \<le> 2000"
  using assms
  by (auto simp: progressSend_def channel_buffer_def channel_or_new_def Let_def
      split: option.splits)

text \<open>
  C3, as the code has it, for a non-empty request id. Without a live subscriber,
  \<^verbatim>\<open>progressSend\<close> appends the message text to the channel's buffer, keeps the
  latest 2000 entries (the oldest is dropped first), and writes to no stream. With a
  live subscriber it writes the event \<open>Data now text\<close> to that subscriber and leaves the
  buffer as it was. So what is sent while no subscriber is attached stays in the
  buffer, up to the cap, for a later subscriber; what is sent while one is attached is
  not buffered.
\<close>

theorem progressSend_buffers_or_writes:
  assumes "i \<noteq> []" and "length (channel_buffer st i) \<le> 2000"
  shows "(res (channel_or_new st i) = None \<longrightarrow>
            channel_buffer (progressSend now (Some i) text st) i =
              drop (length (channel_buffer st i @ [text]) - 2000) (channel_buffer st i @ [text]) \<and>
            res (channel_or_new (progressSend now (Some i) text st) i) = None \<and>
            written (progressSend now (Some i) text st) = written st) \<and>
         (\<forall>r. res (channel_or_new st i) = Some r \<longrightarrow>
            channel_buffer (progressSend now (Some i) text st) i = channel_buffer st i \<and>
            res (channel_or_new (progressSend now (Some i) text st) i) = Some r \<and>
            written (progressSend now (Some i) text st) =
              (written st)(r := written st r @ [Data now text]))"
proof (intro conjI impI allI)
  assume n: "res (channel_or_new st i) = None"
  let ?b = "channel_buffer st i @ [text]"
  from n assms(1)
  have "channel_buffer (progressSend now (Some i) text st) i =
      (if length ?b > 2000 then tl ?b else ?b)"
    by (simp add: progressSend_def channel_buffer_def channel_or_new_def Let_def)
  also have "\<dots> = drop (length ?b - 2000) ?b"
    using assms(2) by (rule buffer_cap_latest)
  finally show "channel_buffer (progressSend now (Some i) text st) i = drop (length ?b - 2000) ?b" .
  from n assms(1) show "res (channel_or_new (progressSend now (Some i) text st) i) = None"
    by (simp add: progressSend_def channel_or_new_def Let_def)
  from n assms(1) show "written (progressSend now (Some i) text st) = written st"
    by (simp add: progressSend_def Let_def)
next
  fix r
  assume s: "res (channel_or_new st i) = Some r"
  with assms(1) show "channel_buffer (progressSend now (Some i) text st) i = channel_buffer st i"
    by (simp add: progressSend_def channel_buffer_def channel_or_new_def Let_def res_write_def)
  from s assms(1) show "res (channel_or_new (progressSend now (Some i) text st) i) = Some r"
    by (simp add: progressSend_def channel_or_new_def Let_def res_write_def)
  from s assms(1) show "written (progressSend now (Some i) text st) =
      (written st)(r := written st r @ [Data now text])"
    by (simp add: progressSend_def Let_def res_write_def)
qed

theorem progressSend_buffers_or_writes_witness:
  "channel_buffer (progressSend 5 (Some ''run-1'') ''b'' (progressSend 4 (Some ''run-1'') ''a'' empty_registry))
      ''run-1'' = [''a'', ''b''] \<and>
   written (progressSend 5 (Some ''run-1'') ''b'' (subscribe 1 ''run-1'' 7 empty_registry)) 7 =
      [Ready 1, Data 5 ''b''] \<and>
   channel_buffer (progressSend 5 (Some ''run-1'') ''b'' (subscribe 1 ''run-1'' 7 empty_registry))
      ''run-1'' = []"
proof -
  let ?s1 = "progressSend 4 (Some ''run-1'') ''a'' empty_registry"
  let ?s2 = "subscribe 1 ''run-1'' 7 empty_registry"
  have 1: "''run-1'' \<noteq> []" by simp
  have 2: "length (channel_buffer ?s1 ''run-1'') \<le> 2000" "res (channel_or_new ?s1 ''run-1'') = None"
    "channel_buffer ?s1 ''run-1'' = [''a'']"
    by (simp_all add: channel_buffer_def channel_or_new_def progressSend_def empty_registry_def Let_def)
  have 3: "length (channel_buffer ?s2 ''run-1'') \<le> 2000" "res (channel_or_new ?s2 ''run-1'') = Some 7"
    "channel_buffer ?s2 ''run-1'' = []" "written ?s2 7 = [Ready 1]"
    by (simp_all add: channel_buffer_def channel_or_new_def subscribe_def empty_registry_def
        res_write_def Let_def)
  from progressSend_buffers_or_writes[OF 1 2(1), of 5 "''b''"] 2(2,3)
  have a: "channel_buffer (progressSend 5 (Some ''run-1'') ''b'' ?s1) ''run-1'' = [''a'', ''b'']"
    by simp
  from progressSend_buffers_or_writes[OF 1 3(1), of 5 "''b''"] 3(2,3,4)
  have b: "written (progressSend 5 (Some ''run-1'') ''b'' ?s2) 7 = [Ready 1, Data 5 ''b'']"
    and c: "channel_buffer (progressSend 5 (Some ''run-1'') ''b'' ?s2) ''run-1'' = []"
    by simp_all
  from a b c show ?thesis by simp
qed

section \<open>Properties of the commit collector\<close>

subsection \<open>The inner loop\<close>

lemma kept_simps:
  "kept im [] = []"
  "im \<or> \<not> isMergeCommit x \<Longrightarrow> kept im (x # xs) = x # kept im xs"
  "\<not> im \<Longrightarrow> isMergeCommit x \<Longrightarrow> kept im (x # xs) = kept im xs"
  by (simp_all add: kept_def)

lemma collect_list_step_skip:
  "\<not> im \<Longrightarrow> isMergeCommit x \<Longrightarrow>
     collect_list im mc seen (x # xs) = collect_list im mc seen xs"
  by simp

lemma collect_list_step_keep:
  "im \<or> \<not> isMergeCommit x \<Longrightarrow>
     collect_list im mc seen (x # xs) =
       (if seen_has seen (sha x) then collect_list im mc seen xs
        else if mc \<le> int (length seen) + 1 then seen @ [(sha x, x)]
        else collect_list im mc (seen @ [(sha x, x)]) xs)"
  by (cases im) (simp_all add: Let_def)

text \<open>The four ways one round of the inner loop can go.\<close>

lemma collect_list_cases [case_names skip dup stop go]:
  obtains
    (skip) "\<not> im" "isMergeCommit x"
      "collect_list im mc seen (x # xs) = collect_list im mc seen xs"
  | (dup) "im \<or> \<not> isMergeCommit x" "seen_has seen (sha x)"
      "collect_list im mc seen (x # xs) = collect_list im mc seen xs"
  | (stop) "im \<or> \<not> isMergeCommit x" "\<not> seen_has seen (sha x)" "mc \<le> int (length seen) + 1"
      "collect_list im mc seen (x # xs) = seen @ [(sha x, x)]"
  | (go) "im \<or> \<not> isMergeCommit x" "\<not> seen_has seen (sha x)" "int (length seen) + 1 < mc"
      "collect_list im mc seen (x # xs) = collect_list im mc (seen @ [(sha x, x)]) xs"
proof (cases "im \<or> \<not> isMergeCommit x")
  case False
  then have "\<not> im" "isMergeCommit x" by simp_all
  then show ?thesis using skip collect_list_step_skip by blast
next
  case k: True
  note eq = collect_list_step_keep[OF k, of mc seen xs]
  show ?thesis
  proof (cases "seen_has seen (sha x)")
    case True
    with eq have "collect_list im mc seen (x # xs) = collect_list im mc seen xs" by simp
    with k True show ?thesis by (rule dup)
  next
    case new: False
    show ?thesis
    proof (cases "mc \<le> int (length seen) + 1")
      case True
      with eq new have "collect_list im mc seen (x # xs) = seen @ [(sha x, x)]" by simp
      with k new True show ?thesis by (rule stop)
    next
      case False
      with eq new have "collect_list im mc seen (x # xs) = collect_list im mc (seen @ [(sha x, x)]) xs"
        by simp
      moreover from False have "int (length seen) + 1 < mc" by simp
      ultimately show ?thesis using k new go by blast
    qed
  qed
qed

declare collect_list.simps(2) [simp del]

lemma collect_list_extends:
  "\<exists>new. collect_list im mc seen cs = seen @ new"
proof (induction cs arbitrary: seen)
  case Nil
  then show ?case by simp
next
  case (Cons x xs)
  show ?case
  proof (cases rule: collect_list_cases[of im x mc seen xs])
    case skip
    with Cons.IH[of seen] show ?thesis by simp
  next
    case dup
    with Cons.IH[of seen] show ?thesis by simp
  next
    case stop
    then show ?thesis by simp
  next
    case go
    from Cons.IH[of "seen @ [(sha x, x)]"] obtain n where
      "collect_list im mc (seen @ [(sha x, x)]) xs = (seen @ [(sha x, x)]) @ n" by blast
    with go show ?thesis by simp
  qed
qed

lemma collect_list_mono:
  "set seen \<subseteq> set (collect_list im mc seen cs)"
  using collect_list_extends[of im mc seen cs] by auto

lemma collect_list_has_mono:
  "seen_has seen k \<Longrightarrow> seen_has (collect_list im mc seen cs) k"
  using collect_list_mono[of seen im mc cs] by (auto simp: seen_has_def)

lemma seen_has_snoc: "seen_has (seen @ [(k, c)]) k' \<longleftrightarrow> seen_has seen k' \<or> k' = k"
  by (auto simp: seen_has_def)

lemma collect_list_entries:
  "(k, c) \<in> set (collect_list im mc seen cs) \<Longrightarrow>
     (k, c) \<in> set seen \<or> (k = sha c \<and> c \<in> set (kept im cs) \<and> \<not> seen_has seen k)"
proof (induction cs arbitrary: seen)
  case Nil
  then show ?case by simp
next
  case (Cons x xs)
  show ?case
  proof (cases rule: collect_list_cases[of im x mc seen xs])
    case skip
    with Cons.prems have "(k, c) \<in> set (collect_list im mc seen xs)" by simp
    from Cons.IH[OF this] skip show ?thesis by (auto simp: kept_simps)
  next
    case dup
    with Cons.prems have "(k, c) \<in> set (collect_list im mc seen xs)" by simp
    from Cons.IH[OF this] dup show ?thesis by (auto simp: kept_simps)
  next
    case stop
    with Cons.prems have "(k, c) \<in> set seen \<or> (k, c) = (sha x, x)" by auto
    with stop show ?thesis by (auto simp: kept_simps)
  next
    case go
    with Cons.prems have "(k, c) \<in> set (collect_list im mc (seen @ [(sha x, x)]) xs)" by simp
    from Cons.IH[OF this] go show ?thesis by (auto simp: kept_simps seen_has_snoc)
  qed
qed

lemma collect_list_distinct:
  "distinct (map fst seen) \<Longrightarrow> distinct (map fst (collect_list im mc seen cs))"
proof (induction cs arbitrary: seen)
  case Nil
  then show ?case by simp
next
  case (Cons x xs)
  have d: "distinct (map fst (seen @ [(sha x, x)]))" if "\<not> seen_has seen (sha x)"
    using that Cons.prems by (auto simp: seen_has_def)
  show ?case
  proof (cases rule: collect_list_cases[of im x mc seen xs])
    case skip
    with Cons show ?thesis by simp
  next
    case dup
    with Cons show ?thesis by simp
  next
    case stop
    with d show ?thesis by simp
  next
    case go
    with d Cons.IH[of "seen @ [(sha x, x)]"] show ?thesis by simp
  qed
qed

lemma collect_list_cap:
  "int (length seen) < mc \<Longrightarrow> int (length (collect_list im mc seen cs)) \<le> mc"
proof (induction cs arbitrary: seen)
  case Nil
  then show ?case by simp
next
  case (Cons x xs)
  show ?case
  proof (cases rule: collect_list_cases[of im x mc seen xs])
    case skip
    with Cons show ?thesis by simp
  next
    case dup
    with Cons show ?thesis by simp
  next
    case stop
    with Cons.prems show ?thesis by simp
  next
    case go
    then have "int (length (seen @ [(sha x, x)])) < mc" by simp
    from Cons.IH[OF this] go show ?thesis by simp
  qed
qed

lemma collect_list_complete:
  "int (length (collect_list im mc seen cs)) < mc \<Longrightarrow> c \<in> set (kept im cs) \<Longrightarrow>
     seen_has (collect_list im mc seen cs) (sha c)"
proof (induction cs arbitrary: seen)
  case Nil
  then show ?case by (simp add: kept_simps)
next
  case (Cons x xs)
  show ?case
  proof (cases rule: collect_list_cases[of im x mc seen xs])
    case skip
    with Cons.prems have "int (length (collect_list im mc seen xs)) < mc" "c \<in> set (kept im xs)"
      by (simp_all add: kept_simps)
    from Cons.IH[OF this] skip show ?thesis by simp
  next
    case dup
    with Cons.prems have len: "int (length (collect_list im mc seen xs)) < mc"
      and "c = x \<or> c \<in> set (kept im xs)" by (auto simp: kept_simps)
    from this(2) show ?thesis
    proof
      assume "c = x"
      with dup show ?thesis by (simp add: collect_list_has_mono)
    next
      assume "c \<in> set (kept im xs)"
      from Cons.IH[OF len this] dup show ?thesis by simp
    qed
  next
    case stop
    with Cons.prems(1) show ?thesis by simp
  next
    case go
    let ?seen' = "seen @ [(sha x, x)]"
    from go Cons.prems have len: "int (length (collect_list im mc ?seen' xs)) < mc"
      and "c = x \<or> c \<in> set (kept im xs)" by (auto simp: kept_simps)
    from this(2) show ?thesis
    proof
      assume "c = x"
      have "seen_has ?seen' (sha x)" by (simp add: seen_has_snoc)
      then have "seen_has (collect_list im mc ?seen' xs) (sha x)" by (rule collect_list_has_mono)
      with go \<open>c = x\<close> show ?thesis by simp
    next
      assume "c \<in> set (kept im xs)"
      from Cons.IH[OF len this] go show ?thesis by simp
    qed
  qed
qed

subsection \<open>The loop over the branches\<close>

lemma collect_branches_distinct:
  "collect_branches im mc lc seen names = Inr seen' \<Longrightarrow> distinct (map fst seen) \<Longrightarrow>
     distinct (map fst seen')"
proof (induction names arbitrary: seen)
  case Nil
  then show ?case by simp
next
  case (Cons b bs)
  from Cons.prems(1) obtain l where l: "lc b = Inr l" by (cases "lc b") auto
  let ?s1 = "collect_list im mc seen l"
  have d: "distinct (map fst ?s1)" using Cons.prems(2) by (rule collect_list_distinct)
  show ?case
  proof (cases "int (length ?s1) \<ge> mc")
    case True
    with l Cons.prems(1) have "seen' = ?s1" by (simp add: Let_def)
    with d show ?thesis by simp
  next
    case False
    with l Cons.prems(1) have "collect_branches im mc lc ?s1 bs = Inr seen'" by (simp add: Let_def)
    from Cons.IH[OF this d] show ?thesis .
  qed
qed

lemma collect_branches_cap:
  "collect_branches im mc lc seen names = Inr seen' \<Longrightarrow> int (length seen) < mc \<Longrightarrow>
     int (length seen') \<le> mc"
proof (induction names arbitrary: seen)
  case Nil
  then show ?case by simp
next
  case (Cons b bs)
  from Cons.prems(1) obtain l where l: "lc b = Inr l" by (cases "lc b") auto
  let ?s1 = "collect_list im mc seen l"
  have c: "int (length ?s1) \<le> mc" using Cons.prems(2) by (rule collect_list_cap)
  show ?case
  proof (cases "int (length ?s1) \<ge> mc")
    case True
    with l Cons.prems(1) have "seen' = ?s1" by (simp add: Let_def)
    with c show ?thesis by simp
  next
    case False
    with l Cons.prems(1) have r: "collect_branches im mc lc ?s1 bs = Inr seen'" by (simp add: Let_def)
    from False have "int (length ?s1) < mc" by simp
    from Cons.IH[OF r this] show ?thesis .
  qed
qed

lemma first_listed_here:
  assumes "lc b = Inr l" "c \<in> set (kept im l)"
  shows "first_listed im lc (b # bs) c"
  unfolding first_listed_def
proof (intro exI conjI)
  show "0 < length (b # bs)" by simp
  show "lc ((b # bs) ! 0) = Inr l" using assms(1) by simp
  show "c \<in> set (kept im l)" by fact
  show "\<forall>j l'. j < 0 \<and> lc ((b # bs) ! j) = Inr l' \<longrightarrow> sha c \<notin> sha ` set (kept im l')" by simp
qed

lemma first_listed_later:
  assumes "first_listed im lc bs c" "lc b = Inr l" "sha c \<notin> sha ` set (kept im l)"
  shows "first_listed im lc (b # bs) c"
proof -
  from assms(1) obtain i l0 where i: "i < length bs" "lc (bs ! i) = Inr l0" "c \<in> set (kept im l0)"
    and before: "\<forall>j l'. j < i \<and> lc (bs ! j) = Inr l' \<longrightarrow> sha c \<notin> sha ` set (kept im l')"
    unfolding first_listed_def by blast
  have "\<forall>j l'. j < Suc i \<and> lc ((b # bs) ! j) = Inr l' \<longrightarrow> sha c \<notin> sha ` set (kept im l')"
  proof (intro allI impI)
    fix j l'
    assume a: "j < Suc i \<and> lc ((b # bs) ! j) = Inr l'"
    show "sha c \<notin> sha ` set (kept im l')"
    proof (cases j)
      case 0
      with a assms(2) have "l' = l" by simp
      with assms(3) show ?thesis by simp
    next
      case (Suc j')
      with a have "j' < i \<and> lc (bs ! j') = Inr l'" by simp
      with before show ?thesis by blast
    qed
  qed
  moreover have "Suc i < length (b # bs)" "lc ((b # bs) ! Suc i) = Inr l0" using i by simp_all
  ultimately show ?thesis unfolding first_listed_def using i(3) by blast
qed

lemma collect_branches_entries:
  "collect_branches im mc lc seen names = Inr seen' \<Longrightarrow> (k, c) \<in> set seen' \<Longrightarrow>
     (k, c) \<in> set seen \<or> (k = sha c \<and> \<not> seen_has seen k \<and> first_listed im lc names c)"
proof (induction names arbitrary: seen)
  case Nil
  then show ?case by simp
next
  case (Cons b bs)
  from Cons.prems(1) obtain l where l: "lc b = Inr l" by (cases "lc b") auto
  let ?s1 = "collect_list im mc seen l"
  have in_s1: "(k, c) \<in> set seen \<or> (k = sha c \<and> \<not> seen_has seen k \<and> first_listed im lc (b # bs) c)"
    if "(k, c) \<in> set ?s1"
    using collect_list_entries[OF that] first_listed_here[of lc b l c im bs, OF l] by blast
  show ?case
  proof (cases "int (length ?s1) \<ge> mc")
    case True
    with l Cons.prems(1) have "seen' = ?s1" by (simp add: Let_def)
    with Cons.prems(2) in_s1 show ?thesis by simp
  next
    case False
    with l Cons.prems(1) have r: "collect_branches im mc lc ?s1 bs = Inr seen'" by (simp add: Let_def)
    from Cons.IH[OF r Cons.prems(2)]
    consider "(k, c) \<in> set ?s1" | "k = sha c" "\<not> seen_has ?s1 k" "first_listed im lc bs c"
      by blast
    then show ?thesis
    proof cases
      case 1
      then show ?thesis by (rule in_s1)
    next
      case 2
      from False have below: "int (length ?s1) < mc" by simp
      have "sha c \<notin> sha ` set (kept im l)"
      proof
        assume "sha c \<in> sha ` set (kept im l)"
        then obtain c' where "c' \<in> set (kept im l)" "sha c' = sha c" by auto
        with collect_list_complete[OF below] have "seen_has ?s1 (sha c)" by metis
        with 2 show False by simp
      qed
      with 2(3) l have "first_listed im lc (b # bs) c" by (rule first_listed_later)
      moreover have "\<not> seen_has seen k"
        using 2(2) collect_list_has_mono[of seen k im mc l] by blast
      ultimately show ?thesis using 2(1) by simp
    qed
  qed
qed

subsection \<open>The collected list\<close>

lemma collect_any_seen:
  assumes "collect_any rs im mc = Inr commits"
  obtains names seen where "listBranches rs = Inr names"
    and "collect_branches im mc (listCommits rs) [] names = Inr seen"
    and "commits = sort_by_date_desc (map snd seen)"
proof -
  from assms obtain names where n: "listBranches rs = Inr names"
    by (cases "listBranches rs") (auto simp: collect_any_def)
  with assms obtain seen where s: "collect_branches im mc (listCommits rs) [] names = Inr seen"
    by (cases "collect_branches im mc (listCommits rs) [] names") (auto simp: collect_any_def)
  with n assms have "commits = sort_by_date_desc (map snd seen)"
    by (simp add: collect_any_def)
  with n s show ?thesis by (rule that)
qed

lemma distinct_map_sort_key: "distinct (map f (sort_key k xs)) = distinct (map f xs)"
  by (simp add: distinct_map)

lemmas sample_eval =
  collect_commits_def collect_any_def collect_single_def sample_repo_def commit_at_def
  ANY_BRANCH_def DEFAULT_BRANCH_def shaParam_def collect_list.simps(2) seen_has_def isMergeCommit_def
  sort_by_date_desc_def commit_time_def person_date_def slice0_def Let_def

text \<open>
  C6. With a positive \<open>maxCommits\<close>, the collected list is never longer than
  \<open>maxCommits\<close>, on the single-branch path and on the any-branch path alike.
\<close>

theorem collect_commits_capped:
  assumes "0 < maxCommits" and "collect_commits rs branch im maxCommits = Inr commits"
  shows "int (length commits) \<le> maxCommits"
proof (cases "branch = Some ANY_BRANCH")
  case True
  with assms(2) have "collect_any rs im maxCommits = Inr commits"
    by (simp add: collect_commits_def)
  then obtain names seen
    where s: "collect_branches im maxCommits (listCommits rs) [] names = Inr seen"
      and c: "commits = sort_by_date_desc (map snd seen)"
    by (rule collect_any_seen)
  from assms(1) have "int (length ([] :: seen_map)) < maxCommits" by simp
  with s have "int (length seen) \<le> maxCommits" by (rule collect_branches_cap)
  with c show ?thesis by (simp add: sort_by_date_desc_def)
next
  case False
  with assms(2) have single: "collect_single rs branch im maxCommits = Inr commits"
    by (simp add: collect_commits_def)
  then obtain listed :: "commit list" and xs :: "commit list"
    where "commits = slice0 (min maxCommits (int (length listed))) xs"
    unfolding collect_single_def by (auto split: sum.splits)
  moreover have e0: "0 \<le> min maxCommits (int (length listed))" using assms(1) by simp
  ultimately have "commits = take (nat (min maxCommits (int (length listed)))) xs"
    by (simp add: slice0_def)
  then have "length commits \<le> nat (min maxCommits (int (length listed)))" by simp
  with e0 have "int (length commits) \<le> min maxCommits (int (length listed))"
    by (simp only: le_nat_iff)
  also have "\<dots> \<le> maxCommits" by simp
  finally show ?thesis .
qed

theorem collect_commits_capped_witness:
  "(0 :: int) < 2 \<and>
   collect_commits sample_repo (Some ANY_BRANCH) False 2 =
     Inr [commit_at ''a1'' [''p''] 30, commit_at ''b1'' [''p''] 10] \<and>
   collect_commits sample_repo (Some ''main'') True 2 =
     Inr [commit_at ''a1'' [''p''] 30, commit_at ''m1'' [''p'', ''q''] 20] \<and>
   int (length [commit_at ''a1'' [''p''] 30, commit_at ''b1'' [''p''] 10]) \<le> 2 \<and>
   int (length [commit_at ''a1'' [''p''] 30, commit_at ''m1'' [''p'', ''q''] 20]) \<le> 2"
proof -
  have p: "(0 :: int) < 2" by simp
  have 1: "collect_commits sample_repo (Some ANY_BRANCH) False 2 =
     Inr [commit_at ''a1'' [''p''] 30, commit_at ''b1'' [''p''] 10]"
    by (simp add: sample_eval)
  have 2: "collect_commits sample_repo (Some ''main'') True 2 =
     Inr [commit_at ''a1'' [''p''] 30, commit_at ''m1'' [''p'', ''q''] 20]"
    by (simp add: sample_eval)
  from collect_commits_capped[OF p 1] collect_commits_capped[OF p 2] p 1 2
  show ?thesis by (intro conjI)
qed

text \<open>
  C5. Under the any-branch selection no hash occurs twice in the result, and every
  returned commit is an entry of the list of the first enumerated branch that lists a
  commit with its hash (among the commits that pass the merge filter).
\<close>

theorem collect_any_unique_first_branch:
  assumes "collect_any rs im mc = Inr commits"
  shows "distinct (map sha commits) \<and>
         (\<exists>names. listBranches rs = Inr names \<and>
            (\<forall>c \<in> set commits. first_listed im (listCommits rs) names c))"
proof -
  from assms obtain names seen where n: "listBranches rs = Inr names"
    and s: "collect_branches im mc (listCommits rs) [] names = Inr seen"
    and c: "commits = sort_by_date_desc (map snd seen)"
    by (rule collect_any_seen)
  have ent: "k = sha x \<and> first_listed im (listCommits rs) names x" if "(k, x) \<in> set seen" for k x
    using collect_branches_entries[OF s that] by simp
  then have e: "map fst seen = map sha (map snd seen)" by auto
  from s have "distinct (map fst seen)" by (rule collect_branches_distinct) simp
  then have d: "distinct (map sha (map snd seen))" unfolding e .
  have "distinct (map sha commits)"
    unfolding c sort_by_date_desc_def using d by (simp only: distinct_map_sort_key)
  moreover have "first_listed im (listCommits rs) names x" if "x \<in> set commits" for x
  proof -
    from that c obtain k where "(k, x) \<in> set seen" by (auto simp: sort_by_date_desc_def)
    with ent show ?thesis by blast
  qed
  ultimately show ?thesis using n by blast
qed

theorem collect_any_unique_first_branch_witness:
  "collect_any sample_repo True 60 =
     Inr [commit_at ''d1'' [''p''] 40, commit_at ''a1'' [''p''] 30,
          commit_at ''m1'' [''p'', ''q''] 20, commit_at ''b1'' [''p''] 10] \<and>
   distinct (map sha [commit_at ''d1'' [''p''] 40, commit_at ''a1'' [''p''] 30,
          commit_at ''m1'' [''p'', ''q''] 20, commit_at ''b1'' [''p''] 10]) \<and>
   first_listed True (listCommits sample_repo) [''main'', ''dev''] (commit_at ''a1'' [''p''] 30)"
proof -
  have 1: "collect_any sample_repo True 60 =
     Inr [commit_at ''d1'' [''p''] 40, commit_at ''a1'' [''p''] 30,
          commit_at ''m1'' [''p'', ''q''] 20, commit_at ''b1'' [''p''] 10]"
    by (simp add: sample_eval)
  have 2: "listBranches sample_repo = Inr [''main'', ''dev'']" by (simp add: sample_repo_def)
  from collect_any_unique_first_branch[OF 1] 1 2 show ?thesis by simp
qed

text \<open>
  C2 does not hold of the code. With \<open>maxCommits = 0\<close> the any-branch loop tests the cap
  only after it has stored a commit, so the first commit of the first branch that
  passes the filter is returned, and the enrichment loop requests its detail.
\<close>

theorem collect_any_zero_cap_keeps_one:
  "collect_commits sample_repo (Some ANY_BRANCH) False 0 = Inr [commit_at ''a1'' [''p''] 30] \<and>
   fst (enrich getCommit body [commit_at ''a1'' [''p''] 30]) = [''a1''] \<and>
   collect_commits sample_repo (Some ''main'') False 0 = Inr []"
proof (intro conjI)
  show "collect_commits sample_repo (Some ANY_BRANCH) False 0 = Inr [commit_at ''a1'' [''p''] 30]"
    by (simp add: sample_eval)
  show "fst (enrich getCommit body [commit_at ''a1'' [''p''] 30]) = [''a1'']"
    by (simp add: commit_at_def split: sum.splits)
  show "collect_commits sample_repo (Some ''main'') False 0 = Inr []"
    by (simp add: sample_eval)
qed

section \<open>Properties of the aggregator\<close>

lemma first_seen_set: "set (first_seen xs) = set xs"
  by (induction xs rule: first_seen.induct) auto

lemma first_seen_distinct: "distinct (first_seen xs)"
  by (induction xs rule: first_seen.induct) (auto simp: first_seen_set)

lemma first_seen_snoc:
  "first_seen (xs @ [a]) = (if a \<in> set xs then first_seen xs else first_seen xs @ [a])"
  by (induction xs rule: first_seen.induct) auto

lemma count_list_snoc: "count_list (xs @ [a]) t = count_list xs t + (if t = a then 1 else 0)"
  by (induction xs) auto

lemma areaCounts_bump_present:
  "distinct ks \<Longrightarrow> a \<in> set ks \<Longrightarrow>
     areaCounts_bump (map (\<lambda>t. (t, c t)) ks) a = map (\<lambda>t. (t, if t = a then c t + 1 else c t)) ks"
  by (induction ks) auto

lemma areaCounts_bump_absent:
  "a \<notin> set ks \<Longrightarrow> areaCounts_bump (map (\<lambda>t. (t, c t)) ks) a = map (\<lambda>t. (t, c t)) ks @ [(a, 1)]"
  by (induction ks) auto

text \<open>The map after the tags \<open>tags\<close>: one entry per tag, in first-seen order, with its count.\<close>

lemma areaCounts_foldl:
  "foldl areaCounts_bump [] tags = map (\<lambda>t. (t, count_list tags t)) (first_seen tags)"
proof (induction tags rule: rev_induct)
  case Nil
  then show ?case by simp
next
  case (snoc a tags)
  let ?ks = "first_seen tags"
  show ?case
  proof (cases "a \<in> set tags")
    case True
    then have "a \<in> set ?ks" by (simp add: first_seen_set)
    with first_seen_distinct[of tags]
    have "areaCounts_bump (map (\<lambda>t. (t, count_list tags t)) ?ks) a =
        map (\<lambda>t. (t, if t = a then count_list tags t + 1 else count_list tags t)) ?ks"
      by (rule areaCounts_bump_present)
    with snoc True show ?thesis by (simp add: first_seen_snoc count_list_snoc)
  next
    case False
    then have "a \<notin> set ?ks" by (simp add: first_seen_set)
    then have "areaCounts_bump (map (\<lambda>t. (t, count_list tags t)) ?ks) a =
        map (\<lambda>t. (t, count_list tags t)) ?ks @ [(a, 1)]"
      by (rule areaCounts_bump_absent)
    moreover have "map (\<lambda>t. (t, count_list (tags @ [a]) t)) ?ks = map (\<lambda>t. (t, count_list tags t)) ?ks"
      using False by (auto simp: count_list_snoc first_seen_set)
    moreover have "count_list tags a = 0" using False by (simp add: count_list_0_iff)
    ultimately show ?thesis using snoc False by (simp add: first_seen_snoc count_list_snoc)
  qed
qed

lemma foldl_foldl_concat: "foldl (foldl f) a xss = foldl f a (concat xss)"
  by (induction xss arbitrary: a) auto

lemma areaCounts_all_eq:
  "areaCounts_all tagss =
     map (\<lambda>t. (t, count_list (concat tagss) t)) (first_seen (concat tagss))"
proof -
  have "areaCounts_all tagss = foldl (foldl areaCounts_bump) [] tagss"
    unfolding areaCounts_all_def
    by (rule arg_cong[where f = "\<lambda>g. foldl g [] tagss"]) (auto simp: areaCounts_commit_def fun_eq_iff)
  then show ?thesis by (simp only: foldl_foldl_concat areaCounts_foldl)
qed

lemma insort_key_map:
  "insort_key g (f x) (map f ys) = map f (insort_key (\<lambda>y. g (f y)) x ys)"
  by (induction ys) auto

lemma sort_key_map: "sort_key g (map f xs) = map f (sort_key (\<lambda>y. g (f y)) xs)"
  by (induction xs) (auto simp: insort_key_map)

text \<open>The specified list: no tag twice, only tags that occur, counts never increasing.\<close>

lemma spec_topAreas_shape:
  "distinct (spec_topAreas tags)"
  "set (spec_topAreas tags) \<subseteq> set tags"
  "sorted_wrt (\<lambda>s t. count_list tags t \<le> count_list tags s) (spec_topAreas tags)"
proof -
  let ?full = "sort_key (\<lambda>t. - int (count_list tags t)) (first_seen tags)"
  have "distinct ?full" by (simp add: first_seen_distinct)
  then show "distinct (spec_topAreas tags)" by (simp add: spec_topAreas_def)
  have "set (take 10 ?full) \<subseteq> set ?full" by (rule set_take_subset)
  then show "set (spec_topAreas tags) \<subseteq> set tags"
    by (simp add: spec_topAreas_def first_seen_set)
  have "sorted (map (\<lambda>t. - int (count_list tags t)) ?full)" by (rule sorted_sort_key)
  then have "sorted_wrt (\<lambda>s t. count_list tags t \<le> count_list tags s) ?full"
    by (simp add: sorted_map)
  then show "sorted_wrt (\<lambda>s t. count_list tags t \<le> count_list tags s) (spec_topAreas tags)"
    unfolding spec_topAreas_def by (rule sorted_wrt_take)
qed

lemma topAreas_example:
  "topAreas [[''a'', ''b''], [''a'', ''c'', ''b''], [''a'']] = [''a'', ''b'', ''c'']"
  by (simp add: topAreas_def sortedAreas_def areaCounts_all_def areaCounts_commit_def)

text \<open>
  C8. For the area tags of the enriched commits, in order, \<open>topAreas\<close> is the list of
  the distinct tags sorted by descending frequency, ties in first-seen order, cut to the
  first ten.
\<close>

theorem topAreas_refines_spec:
  "topAreas areas_per_commit = spec_topAreas (concat areas_per_commit)"
proof -
  let ?tags = "concat areas_per_commit"
  have "sort_key (\<lambda>(k, n). - int n) (map (\<lambda>t. (t, count_list ?tags t)) (first_seen ?tags)) =
      map (\<lambda>t. (t, count_list ?tags t)) (sort_key (\<lambda>t. - int (count_list ?tags t)) (first_seen ?tags))"
    by (simp add: sort_key_map)
  then have "sortedAreas (areaCounts_all areas_per_commit) =
      sort_key (\<lambda>t. - int (count_list ?tags t)) (first_seen ?tags)"
    by (simp add: sortedAreas_def areaCounts_all_eq comp_def)
  then show ?thesis by (simp add: topAreas_def spec_topAreas_def)
qed

section \<open>The collector below the cap\<close>

lemma kept_append: "kept im (xs @ ys) = kept im xs @ kept im ys"
  by (simp add: kept_def)

lemma entries_simps:
  "entries [] = []" "entries (c # cs) = (sha c, c) # entries cs"
  "entries (xs @ ys) = entries xs @ entries ys"
  "map snd (entries cs) = cs" "map fst (entries cs) = map sha cs"
  "length (entries cs) = length cs"
  by (simp_all add: entries_def comp_def)

lemma new_firsts_append:
  "new_firsts K (xs @ ys) = new_firsts K xs @ new_firsts (K \<union> sha ` set xs) ys"
proof (induction xs arbitrary: K)
  case Nil
  then show ?case by simp
next
  case (Cons c xs)
  show ?case
  proof (cases "sha c \<in> K")
    case True
    then have "K \<union> sha ` set (c # xs) = K \<union> sha ` set xs" by auto
    with True Cons.IH[of K] show ?thesis by simp
  next
    case False
    have "insert (sha c) K \<union> sha ` set xs = K \<union> sha ` set (c # xs)" by auto
    with False Cons.IH[of "insert (sha c) K"] show ?thesis by simp
  qed
qed

lemma new_firsts_subset: "set (new_firsts K xs) \<subseteq> set xs"
  by (induction xs arbitrary: K) auto

lemma new_firsts_shas: "sha ` set (new_firsts K xs) = sha ` set xs - K"
  by (induction xs arbitrary: K) auto

lemma new_firsts_distinct: "distinct (map sha (new_firsts K xs))"
proof (induction xs arbitrary: K)
  case Nil
  then show ?case by simp
next
  case (Cons c xs)
  have "sha c \<notin> sha ` set (new_firsts (insert (sha c) K) xs)"
    unfolding new_firsts_shas by simp
  with Cons show ?case by auto
qed

lemma new_firsts_length: "length (new_firsts K xs) = card (sha ` set xs - K)"
proof -
  have "length (new_firsts K xs) = length (map sha (new_firsts K xs))" by simp
  also have "\<dots> = card (set (map sha (new_firsts K xs)))"
    using new_firsts_distinct[of K xs] by (simp only: distinct_card)
  also have "\<dots> = card (sha ` set xs - K)" by (simp add: new_firsts_shas)
  finally show ?thesis .
qed

lemma new_firsts_insert_absent:
  "s \<notin> sha ` set ys \<Longrightarrow> new_firsts (insert s K) ys = new_firsts K ys"
proof (induction ys arbitrary: K)
  case Nil
  then show ?case by simp
next
  case (Cons c ys)
  then have "s \<noteq> sha c" "s \<notin> sha ` set ys" by auto
  with Cons.IH[of K] Cons.IH[of "insert (sha c) K"] show ?case
    by (simp add: insert_commute)
qed

text \<open>
  When every hash stands for one merge status, filtering merges out of the first
  occurrences is the same as taking the first occurrences of the filtered list.
\<close>

lemma sha_decides_merge_subset:
  "sha_decides_merge T \<Longrightarrow> S \<subseteq> T \<Longrightarrow> sha_decides_merge S"
  unfolding sha_decides_merge_def by blast

lemma sha_decides_mergeD:
  "sha_decides_merge S \<Longrightarrow> c \<in> S \<Longrightarrow> c' \<in> S \<Longrightarrow> sha c = sha c' \<Longrightarrow> isMergeCommit c \<Longrightarrow>
     isMergeCommit c'"
  unfolding sha_decides_merge_def by blast

lemma new_firsts_filter:
  assumes "sha_decides_merge (set xs)"
  shows "filter (\<lambda>c. \<not> isMergeCommit c) (new_firsts K xs) =
           new_firsts K (filter (\<lambda>c. \<not> isMergeCommit c) xs)"
  using assms
proof (induction xs arbitrary: K)
  case Nil
  then show ?case by simp
next
  case (Cons c xs)
  from Cons.prems have "sha_decides_merge (set xs)"
    by (rule sha_decides_merge_subset) auto
  note IH = Cons.IH[OF this]
  show ?case
  proof (cases "sha c \<in> K")
    case True
    with IH[of K] show ?thesis by simp
  next
    case new: False
    show ?thesis
    proof (cases "isMergeCommit c")
      case False
      with new IH[of "insert (sha c) K"] show ?thesis by simp
    next
      case True
      have "sha c \<notin> sha ` set (filter (\<lambda>c. \<not> isMergeCommit c) xs)"
      proof
        assume "sha c \<in> sha ` set (filter (\<lambda>c. \<not> isMergeCommit c) xs)"
        then obtain a where a: "a \<in> set xs" "\<not> isMergeCommit a" "sha c = sha a" by auto
        from Cons.prems have "isMergeCommit a"
          by (rule sha_decides_mergeD[where c = c]) (use a True in simp_all)
        with a(2) show False by simp
      qed
      then have "new_firsts (insert (sha c) K) (filter (\<lambda>c. \<not> isMergeCommit c) xs) =
          new_firsts K (filter (\<lambda>c. \<not> isMergeCommit c) xs)"
        by (rule new_firsts_insert_absent)
      with True new IH[of "insert (sha c) K"] show ?thesis by simp
    qed
  qed
qed

lemma seen_has_keys: "seen_has seen k \<longleftrightarrow> k \<in> fst ` set seen"
  by (simp add: seen_has_def)

text \<open>A run of the inner loop that ends below the cap has added every first occurrence.\<close>

lemma collect_list_below_cap:
  "int (length (collect_list im mc seen cs)) < mc \<Longrightarrow>
     collect_list im mc seen cs = seen @ entries (new_firsts (fst ` set seen) (kept im cs))"
proof (induction cs arbitrary: seen)
  case Nil
  then show ?case by (simp add: kept_simps entries_simps)
next
  case (Cons x xs)
  show ?case
  proof (cases rule: collect_list_cases[of im x mc seen xs])
    case skip
    with Cons show ?thesis by (simp add: kept_simps)
  next
    case dup
    with Cons show ?thesis by (simp add: kept_simps seen_has_keys)
  next
    case stop
    with Cons.prems show ?thesis by simp
  next
    case go
    let ?seen' = "seen @ [(sha x, x)]"
    from go Cons.prems have "int (length (collect_list im mc ?seen' xs)) < mc" by simp
    from Cons.IH[OF this] go show ?thesis
      by (simp add: kept_simps seen_has_keys entries_simps)
  qed
qed

lemma collect_list_uncapped:
  "int (length seen) + int (length (new_firsts (fst ` set seen) (kept im cs))) < mc \<Longrightarrow>
     collect_list im mc seen cs = seen @ entries (new_firsts (fst ` set seen) (kept im cs))"
proof (induction cs arbitrary: seen)
  case Nil
  then show ?case by (simp add: kept_simps entries_simps)
next
  case (Cons x xs)
  show ?case
  proof (cases rule: collect_list_cases[of im x mc seen xs])
    case skip
    with Cons show ?thesis by (simp add: kept_simps)
  next
    case dup
    with Cons show ?thesis by (simp add: kept_simps seen_has_keys)
  next
    case stop
    with Cons.prems show ?thesis by (simp add: kept_simps seen_has_keys)
  next
    case go
    let ?seen' = "seen @ [(sha x, x)]"
    from go Cons.prems
    have "int (length ?seen') + int (length (new_firsts (fst ` set ?seen') (kept im xs))) < mc"
      by (simp add: kept_simps seen_has_keys)
    from Cons.IH[OF this] go show ?thesis
      by (simp add: kept_simps seen_has_keys entries_simps)
  qed
qed

lemma keys_after:
  "fst ` set (seen @ entries (new_firsts (fst ` set seen) xs)) = fst ` set seen \<union> sha ` set xs"
proof -
  have "fst ` set (entries (new_firsts (fst ` set seen) xs)) = sha ` set xs - fst ` set seen"
    using new_firsts_shas[of "fst ` set seen" xs] entries_simps(5)[of "new_firsts (fst ` set seen) xs"]
    by (metis set_map)
  then show ?thesis by (auto simp: image_Un)
qed

text \<open>The same for the loop over the branches.\<close>

lemma collect_branches_below_cap:
  "collect_branches im mc lc seen names = Inr seen' \<Longrightarrow> int (length seen') < mc \<Longrightarrow>
     \<exists>lss. map lc names = map Inr lss \<and>
       seen' = seen @ entries (new_firsts (fst ` set seen) (kept im (concat lss)))"
proof (induction names arbitrary: seen)
  case Nil
  then have "map lc [] = map Inr [] \<and>
      seen' = seen @ entries (new_firsts (fst ` set seen) (kept im (concat [])))"
    by (simp add: kept_simps entries_simps)
  then show ?case by blast
next
  case (Cons b bs)
  from Cons.prems(1) obtain l where l: "lc b = Inr l" by (cases "lc b") auto
  let ?s1 = "collect_list im mc seen l"
  let ?K = "fst ` set seen"
  have go: "\<not> int (length ?s1) \<ge> mc"
  proof
    assume "int (length ?s1) \<ge> mc"
    with l Cons.prems(1) have "seen' = ?s1" by (simp add: Let_def)
    with Cons.prems(2) \<open>int (length ?s1) \<ge> mc\<close> show False by simp
  qed
  with l Cons.prems(1) have r: "collect_branches im mc lc ?s1 bs = Inr seen'" by (simp add: Let_def)
  from Cons.IH[OF r Cons.prems(2)] obtain lss where
    ls: "map lc bs = map Inr lss"
    and s': "seen' = ?s1 @ entries (new_firsts (fst ` set ?s1) (kept im (concat lss)))"
    by blast
  from go have "int (length ?s1) < mc" by simp
  then have s1: "?s1 = seen @ entries (new_firsts ?K (kept im l))" by (rule collect_list_below_cap)
  have k1: "fst ` set ?s1 = ?K \<union> sha ` set (kept im l)"
    by (subst s1) (rule keys_after)
  have "seen' = seen @ entries (new_firsts ?K (kept im (concat (l # lss))))"
    by (subst s', subst s1, simp only: k1)
       (simp add: kept_append new_firsts_append entries_simps)
  moreover from l ls have "map lc (b # bs) = map Inr (l # lss)" by simp
  ultimately show ?case by blast
qed

lemma collect_branches_uncapped:
  "map lc names = map Inr lss \<Longrightarrow>
   int (length seen) + int (length (new_firsts (fst ` set seen) (kept im (concat lss)))) < mc \<Longrightarrow>
     collect_branches im mc lc seen names =
       Inr (seen @ entries (new_firsts (fst ` set seen) (kept im (concat lss))))"
proof (induction names arbitrary: seen lss)
  case Nil
  then show ?case by (simp add: kept_simps entries_simps)
next
  case (Cons b bs)
  from Cons.prems(1) obtain l ls where lss: "lss = l # ls" and l: "lc b = Inr l"
    and ls: "map lc bs = map Inr ls"
    by (cases lss) auto
  let ?K = "fst ` set seen"
  let ?n1 = "new_firsts ?K (kept im l)"
  let ?n2 = "new_firsts (?K \<union> sha ` set (kept im l)) (kept im (concat ls))"
  have split: "new_firsts ?K (kept im (concat lss)) = ?n1 @ ?n2"
    by (simp add: lss kept_append new_firsts_append)
  with Cons.prems(2) have len: "int (length seen) + int (length ?n1) + int (length ?n2) < mc"
    by simp
  then have "int (length seen) + int (length ?n1) < mc" by linarith
  then have s1: "collect_list im mc seen l = seen @ entries ?n1" by (rule collect_list_uncapped)
  let ?s1 = "seen @ entries ?n1"
  have k1: "fst ` set ?s1 = ?K \<union> sha ` set (kept im l)" by (rule keys_after)
  from len have "int (length ?s1) + int (length (new_firsts (fst ` set ?s1) (kept im (concat ls)))) < mc"
    by (simp only: k1) (simp add: entries_simps)
  from Cons.IH[OF ls this]
  have r: "collect_branches im mc lc ?s1 bs = Inr (?s1 @ entries ?n2)" by (simp only: k1)
  from len have "\<not> int (length ?s1) \<ge> mc" by (simp add: entries_simps)
  with l s1 r have "collect_branches im mc lc seen (b # bs) = Inr (?s1 @ entries ?n2)"
    by (simp add: Let_def)
  then show ?case by (simp add: split entries_simps)
qed

text \<open>A stable sort of two lss with the same elements, none twice, and distinct keys.\<close>

lemma sort_key_unique:
  assumes "distinct xs" "distinct ys" "set xs = set ys" "inj_on k (set xs)"
  shows "sort_key k xs = sort_key k ys"
proof -
  have "map k (sort_key k xs) = map k (sort_key k ys)"
  proof (rule sorted_distinct_set_unique)
    show "sorted (map k (sort_key k xs))" "sorted (map k (sort_key k ys))" by simp_all
    show "distinct (map k (sort_key k xs))" using assms(1,4) by (simp add: distinct_map)
    show "distinct (map k (sort_key k ys))" using assms(2,3,4) by (simp add: distinct_map)
    show "set (map k (sort_key k xs)) = set (map k (sort_key k ys))" using assms(3) by simp
  qed
  moreover have "inj_on k (set (sort_key k xs) \<union> set (sort_key k ys))" using assms(3,4) by simp
  ultimately show ?thesis by (simp only: inj_on_map_eq_map)
qed

section \<open>Order of the any-branch result, and the merge filter\<close>

lemma listed_by_concat:
  "map lc names = map Inr lss \<Longrightarrow> set (kept im (concat lss)) = listed_by im lc names"
proof (induction names arbitrary: lss)
  case Nil
  then show ?case by (simp add: listed_by_def kept_simps)
next
  case (Cons b bs)
  then obtain l ls where "lss = l # ls" "lc b = Inr l" "map lc bs = map Inr ls"
    by (cases lss) auto
  with Cons.IH[of ls] show ?case by (simp add: listed_by_def kept_append)
qed

lemma all_listed:
  "map lc names = map Inr lss \<Longrightarrow> b \<in> set names \<Longrightarrow> \<exists>l. lc b = Inr l"
proof (induction names arbitrary: lss)
  case Nil
  then show ?case by simp
next
  case (Cons a as)
  then obtain l ls where "lss = l # ls" "lc a = Inr l" "map lc as = map Inr ls"
    by (cases lss) auto
  with Cons.IH[of ls] Cons.prems(2) show ?case by auto
qed

lemma lists_exist:
  "(\<And>b. b \<in> set names \<Longrightarrow> \<exists>l. lc b = Inr l) \<Longrightarrow> \<exists>lss. map lc names = map Inr lss"
proof (induction names)
  case Nil
  then show ?case by simp
next
  case (Cons a as)
  then obtain l where l: "lc a = Inr l" by auto
  from Cons obtain ls where "map lc as = map Inr ls" by auto
  with l have "map lc (a # as) = map Inr (l # ls)" by simp
  then show ?case by blast
qed

lemma listed_by_cong: "set names = set names' \<Longrightarrow> listed_by im lc names = listed_by im lc names'"
  by (simp add: listed_by_def)

lemma new_firsts_all:
  assumes "inj_on sha (set xs)"
  shows "set (new_firsts {} xs) = set xs"
proof
  show "set (new_firsts {} xs) \<subseteq> set xs" by (rule new_firsts_subset)
  show "set xs \<subseteq> set (new_firsts {} xs)"
  proof
    fix c assume c: "c \<in> set xs"
    then have "sha c \<in> sha ` set (new_firsts {} xs)" by (simp add: new_firsts_shas)
    then obtain c' where c': "c' \<in> set (new_firsts {} xs)" "sha c' = sha c" by auto
    with new_firsts_subset[of "{}" xs] have "c' \<in> set xs" by auto
    with assms c c'(2) have "c' = c" by (auto dest: inj_onD)
    with c'(1) show "c \<in> set (new_firsts {} xs)" by simp
  qed
qed

lemma new_firsts_distinct_list: "distinct (new_firsts K xs)"
  using new_firsts_distinct[of K xs] by (simp add: distinct_map)

text \<open>An any-branch run that ends below the cap, in terms of the lists of its branches.\<close>

lemma collect_any_below_cap:
  assumes "collect_any rs im mc = Inr commits" "int (length commits) < mc"
  obtains names lss where "listBranches rs = Inr names"
    and "map (listCommits rs) names = map Inr lss"
    and "commits = sort_by_date_desc (new_firsts {} (kept im (concat lss)))"
proof -
  from assms(1) obtain names seen where n: "listBranches rs = Inr names"
    and s: "collect_branches im mc (listCommits rs) [] names = Inr seen"
    and c: "commits = sort_by_date_desc (map snd seen)"
    by (rule collect_any_seen)
  from c assms(2) have "int (length seen) < mc" by (simp add: sort_by_date_desc_def)
  from collect_branches_below_cap[OF s this] obtain lss
    where l: "map (listCommits rs) names = map Inr lss"
      and "seen = entries (new_firsts {} (kept im (concat lss)))" by auto
  with c have "commits = sort_by_date_desc (new_firsts {} (kept im (concat lss)))"
    by (simp add: entries_simps)
  with n l show ?thesis by (rule that)
qed

lemma collect_any_uncapped:
  assumes "listBranches rs = Inr names" "map (listCommits rs) names = map Inr lss"
    and "int (length (new_firsts {} (kept im (concat lss)))) < mc"
  shows "collect_any rs im mc = Inr (sort_by_date_desc (new_firsts {} (kept im (concat lss))))"
proof -
  from assms(3)
  have "int (length ([] :: seen_map)) +
      int (length (new_firsts (fst ` set ([] :: seen_map)) (kept im (concat lss)))) < mc"
    by simp
  from collect_branches_uncapped[OF assms(2) this] assms(1)
  show ?thesis by (simp add: collect_any_def entries_simps)
qed

lemma sorted_by_date_desc:
  "sorted_wrt (\<lambda>a b. commit_time b \<le> commit_time a) (sort_by_date_desc cs)"
proof -
  have "sorted (map (\<lambda>c. - commit_time c) (sort_by_date_desc cs))"
    unfolding sort_by_date_desc_def by (rule sorted_sort_key)
  then show ?thesis by (simp add: sorted_map)
qed

text \<open>
  Two any-branch runs over the same lists do not always agree when the branches
  are enumerated in another order: with a cap of 2, starting at \<open>main\<close> gives \<open>a1\<close> and \<open>b1\<close>,
  starting at \<open>dev\<close> gives \<open>d1\<close> and \<open>a1\<close>.
\<close>

theorem collect_any_order_counterexample:
  "collect_any sample_repo False 2 =
     Inr [commit_at ''a1'' [''p''] 30, commit_at ''b1'' [''p''] 10] \<and>
   collect_any (sample_repo \<lparr> listBranches := Inr [''dev'', ''main''] \<rparr>) False 2 =
     Inr [commit_at ''d1'' [''p''] 40, commit_at ''a1'' [''p''] 30] \<and>
   collect_any sample_repo False 2 \<noteq>
     collect_any (sample_repo \<lparr> listBranches := Inr [''dev'', ''main''] \<rparr>) False 2"
  by (simp add: sample_eval)

text \<open>
  C9, as the code has it. The any-branch result is sorted by time, latest first (the
  author's time, else the committer's, else the epoch). A run that enumerates the same
  branches in another order returns the same list provided the cap is not reached
  (the result is shorter than \<open>maxCommits\<close>), a hash stands for one commit, and no two
  collected commits have the same time.
\<close>

theorem collect_any_sorted_order_independent:
  assumes "collect_any rs im mc = Inr commits"
  shows "sorted_wrt (\<lambda>a b. commit_time b \<le> commit_time a) commits \<and>
         (\<forall>names'. set names' = set (branch_names rs) \<and> int (length commits) < mc \<and>
              inj_on sha (listed_by im (listCommits rs) (branch_names rs)) \<and>
              inj_on commit_time (listed_by im (listCommits rs) (branch_names rs)) \<longrightarrow>
            collect_any (rs \<lparr> listBranches := Inr names' \<rparr>) im mc = Inr commits)"
proof (intro conjI allI impI)
  from assms obtain seen :: seen_map where "commits = sort_by_date_desc (map snd seen)"
    by (rule collect_any_seen)
  then show "sorted_wrt (\<lambda>a b. commit_time b \<le> commit_time a) commits"
    by (simp add: sorted_by_date_desc)
next
  fix names'
  let ?lc = "listCommits rs"
  let ?S = "listed_by im ?lc (branch_names rs)"
  assume h: "set names' = set (branch_names rs) \<and> int (length commits) < mc \<and>
      inj_on sha ?S \<and> inj_on commit_time ?S"
  then have below: "int (length commits) < mc" and inj: "inj_on sha ?S"
    and times: "inj_on commit_time ?S" by simp_all
  from assms below obtain names lss where n: "listBranches rs = Inr names"
    and l: "map ?lc names = map Inr lss"
    and c: "commits = sort_by_date_desc (new_firsts {} (kept im (concat lss)))"
    by (rule collect_any_below_cap)
  let ?A = "kept im (concat lss)"
  from n have bn: "branch_names rs = names" by (simp add: branch_names_def)
  with h have same: "set names' = set names" by simp
  have A: "set ?A = ?S" using listed_by_concat[OF l] bn by simp
  have "\<exists>l. ?lc b = Inr l" if "b \<in> set names'" for b
    using that same all_listed[OF l] by blast
  then obtain lss' where l': "map ?lc names' = map Inr lss'"
    using lists_exist[of names' ?lc] by blast
  let ?A' = "kept im (concat lss')"
  have A': "set ?A' = ?S"
    using listed_by_concat[OF l'] listed_by_cong[OF same] bn by simp
  have "length (new_firsts {} ?A') = length (new_firsts {} ?A)"
    by (simp add: new_firsts_length A A')
  with c below have small: "int (length (new_firsts {} ?A')) < mc"
    by (simp add: sort_by_date_desc_def)
  let ?rs' = "rs \<lparr> listBranches := Inr names' \<rparr>"
  have "collect_any ?rs' im mc = Inr (sort_by_date_desc (new_firsts {} ?A'))"
    by (rule collect_any_uncapped[where names = names']) (use l' small in simp_all)
  moreover have "sort_by_date_desc (new_firsts {} ?A') = sort_by_date_desc (new_firsts {} ?A)"
    unfolding sort_by_date_desc_def
  proof (rule sort_key_unique)
    show "distinct (new_firsts {} ?A')" "distinct (new_firsts {} ?A)"
      by (rule new_firsts_distinct_list)+
    from inj have 1: "set (new_firsts {} ?A) = ?S" using new_firsts_all[of ?A] A by simp
    from inj have 2: "set (new_firsts {} ?A') = ?S" using new_firsts_all[of ?A'] A' by simp
    from 1 2 show "set (new_firsts {} ?A') = set (new_firsts {} ?A)" by simp
    from times 2 show "inj_on (\<lambda>c. - commit_time c) (set (new_firsts {} ?A'))"
      by (auto simp: inj_on_def)
  qed
  ultimately show "collect_any ?rs' im mc = Inr commits" using c by simp
qed
lemma sample_listed:
  "branch_names sample_repo = [''main'', ''dev'']"
  "listed_by True (listCommits sample_repo) [''main'', ''dev''] =
     {commit_at ''a1'' [''p''] 30, commit_at ''m1'' [''p'', ''q''] 20,
      commit_at ''b1'' [''p''] 10, commit_at ''d1'' [''p''] 40}"
  by (auto simp: branch_names_def sample_repo_def listed_by_def kept_def)

theorem collect_any_sorted_order_independent_witness:
  "collect_any sample_repo True 60 =
     Inr [commit_at ''d1'' [''p''] 40, commit_at ''a1'' [''p''] 30,
          commit_at ''m1'' [''p'', ''q''] 20, commit_at ''b1'' [''p''] 10] \<and>
   sorted_wrt (\<lambda>a b. commit_time b \<le> commit_time a)
     [commit_at ''d1'' [''p''] 40, commit_at ''a1'' [''p''] 30,
      commit_at ''m1'' [''p'', ''q''] 20, commit_at ''b1'' [''p''] 10] \<and>
   collect_any (sample_repo \<lparr> listBranches := Inr [''dev'', ''main''] \<rparr>) True 60 =
     Inr [commit_at ''d1'' [''p''] 40, commit_at ''a1'' [''p''] 30,
          commit_at ''m1'' [''p'', ''q''] 20, commit_at ''b1'' [''p''] 10]"
proof -
  let ?out = "[commit_at ''d1'' [''p''] 40, commit_at ''a1'' [''p''] 30,
      commit_at ''m1'' [''p'', ''q''] 20, commit_at ''b1'' [''p''] 10]"
  let ?S = "listed_by True (listCommits sample_repo) (branch_names sample_repo)"
  have 1: "collect_any sample_repo True 60 = Inr ?out"
    by (simp add: sample_eval)
  note t = collect_any_sorted_order_independent[OF 1]
  from t have a: "sorted_wrt (\<lambda>a b. commit_time b \<le> commit_time a) ?out" by (rule conjunct1)
  have 2: "set [''dev'', ''main''] = set (branch_names sample_repo)"
    by (simp add: sample_listed insert_commute)
  have 3: "int (length ?out) < 60" by simp
  have 4: "inj_on sha ?S"
    by (simp add: sample_listed commit_at_def)
  have 5: "inj_on commit_time ?S"
    by (simp add: sample_listed commit_at_def commit_time_def person_date_def)
  from t have "\<forall>names'. set names' = set (branch_names sample_repo) \<and> int (length ?out) < 60 \<and>
      inj_on sha ?S \<and> inj_on commit_time ?S \<longrightarrow>
      collect_any (sample_repo \<lparr> listBranches := Inr names' \<rparr>) True 60 = Inr ?out"
    by (rule conjunct2)
  then have "set [''dev'', ''main''] = set (branch_names sample_repo) \<and> int (length ?out) < 60 \<and>
      inj_on sha ?S \<and> inj_on commit_time ?S \<longrightarrow>
      collect_any (sample_repo \<lparr> listBranches := Inr [''dev'', ''main''] \<rparr>) True 60 = Inr ?out"
    by (rule spec)
  moreover from 2 3 4 5 have "set [''dev'', ''main''] = set (branch_names sample_repo) \<and>
      int (length ?out) < 60 \<and> inj_on sha ?S \<and> inj_on commit_time ?S"
    by (intro conjI)
  ultimately have b: "collect_any (sample_repo \<lparr> listBranches := Inr [''dev'', ''main''] \<rparr>) True 60 = Inr ?out"
    by (rule mp)
  from 1 a b show ?thesis by (intro conjI)
qed

subsection \<open>The merge filter\<close>

lemma set_slice0: "set (slice0 e xs) \<subseteq> set xs"
  by (auto simp: slice0_def dest: in_set_takeD)

lemma collect_single_listed:
  assumes "collect_single rs branch im mc = Inr commits"
  obtains listed where "listCommits rs (shaParam branch) = Inr listed"
    and "commits = slice0 (min mc (int (length listed)))
                     (if im then listed else filter (\<lambda>c. \<not> isMergeCommit c) listed)"
  using assms by (cases "listCommits rs (shaParam branch)") (auto simp: collect_single_def)

lemma collect_single_below_cap:
  assumes "collect_single rs branch True mc = Inr ct" "int (length ct) < mc"
  shows "listCommits rs (shaParam branch) = Inr ct"
proof -
  from assms(1) obtain listed where l: "listCommits rs (shaParam branch) = Inr listed"
    and c: "ct = slice0 (min mc (int (length listed))) listed"
    by (rule collect_single_listed) simp
  have "int (length listed) < mc"
  proof (rule ccontr)
    assume "\<not> int (length listed) < mc"
    then have m: "min mc (int (length listed)) = mc" by simp
    show False
    proof (cases "mc < 0")
      case True
      with assms(2) show False by simp
    next
      case False
      with c m have "ct = take (nat mc) listed" by (simp add: slice0_def)
      with False \<open>\<not> int (length listed) < mc\<close> have "int (length ct) = mc" by simp
      with assms(2) show False by simp
    qed
  qed
  then have "min mc (int (length listed)) = int (length listed)" by simp
  with c have "ct = listed" by (simp add: slice0_def)
  with l show ?thesis by simp
qed

lemma kept_True: "kept True xs = xs"
  by (simp add: kept_def)

lemma kept_False: "kept False xs = filter (\<lambda>c. \<not> isMergeCommit c) xs"
  by (simp add: kept_def)

text \<open>
  With the cap in the way, switching \<open>includeMerges\<close> changes more than the merge commits:
  on \<open>main\<close> with a cap of 2 the run with merges returns \<open>a1\<close> and the merge \<open>m1\<close>, the run
  without them returns \<open>a1\<close> and \<open>b1\<close>, and \<open>b1\<close> is no merge. With a cap of 1 the merge
  is absent although \<open>includeMerges\<close> is set.
\<close>

theorem merge_filter_cap_counterexample:
  "collect_commits sample_repo (Some ''main'') True 2 =
     Inr [commit_at ''a1'' [''p''] 30, commit_at ''m1'' [''p'', ''q''] 20] \<and>
   collect_commits sample_repo (Some ''main'') False 2 =
     Inr [commit_at ''a1'' [''p''] 30, commit_at ''b1'' [''p''] 10] \<and>
   \<not> isMergeCommit (commit_at ''b1'' [''p''] 10) \<and>
   commit_at ''b1'' [''p''] 10 \<notin> set [commit_at ''a1'' [''p''] 30, commit_at ''m1'' [''p'', ''q''] 20] \<and>
   isMergeCommit (commit_at ''m1'' [''p'', ''q''] 20) \<and>
   collect_commits sample_repo (Some ''main'') True 1 = Inr [commit_at ''a1'' [''p''] 30]"
  by (simp add: sample_eval)

text \<open>
  C7, as the code has it. Without \<open>includeMerges\<close> no commit with two or more parents
  is in the output, on either path. With \<open>includeMerges\<close>, when the cap is not reached
  (the output is shorter than \<open>maxCommits\<close>), every commit that the selected branches
  list, merge or not, is in the output by its hash; and then, a hash deciding whether
  a commit is a merge, the run without \<open>includeMerges\<close> returns that output with the
  merge commits removed and nothing else changed.
\<close>

theorem merge_filter_toggle:
  "(\<forall>cf. collect_commits rs branch False mc = Inr cf \<longrightarrow> (\<forall>c \<in> set cf. \<not> isMergeCommit c)) \<and>
   (\<forall>ct. collect_commits rs branch True mc = Inr ct \<and> int (length ct) < mc \<longrightarrow>
      sha ` selected_commits rs branch \<subseteq> sha ` set ct \<and>
      (sha_decides_merge (selected_commits rs branch) \<longrightarrow>
         collect_commits rs branch False mc = Inr (filter (\<lambda>c. \<not> isMergeCommit c) ct)))"
proof (cases "branch = Some ANY_BRANCH")
  case any: True
  let ?lc = "listCommits rs"
  have no_merge: "\<not> isMergeCommit c" if run: "collect_any rs False mc = Inr cf" and c: "c \<in> set cf" for cf c
  proof -
    from run obtain names seen where s: "collect_branches False mc ?lc [] names = Inr seen"
      and cf: "cf = sort_by_date_desc (map snd seen)"
      by (rule collect_any_seen)
    from c cf obtain k where "(k, c) \<in> set seen" by (auto simp: sort_by_date_desc_def)
    from collect_branches_entries[OF s this] have "first_listed False ?lc names c" by simp
    then obtain l where "c \<in> set (kept False l)" unfolding first_listed_def by blast
    then show ?thesis by (simp add: kept_False)
  qed
  have toggle: "sha ` selected_commits rs branch \<subseteq> sha ` set ct \<and>
      (sha_decides_merge (selected_commits rs branch) \<longrightarrow>
         collect_any rs False mc = Inr (filter (\<lambda>c. \<not> isMergeCommit c) ct))"
    if run: "collect_any rs True mc = Inr ct" and below: "int (length ct) < mc" for ct
  proof -
    from run below obtain names lss where n: "listBranches rs = Inr names"
      and l: "map ?lc names = map Inr lss"
      and ct: "ct = sort_by_date_desc (new_firsts {} (concat lss))"
      by (rule collect_any_below_cap[where im = True]) (simp add: kept_True)
    let ?A = "concat lss"
    from n any have sel: "selected_commits rs branch = set ?A"
      using listed_by_concat[OF l, of True]
      by (simp add: selected_commits_def selected_branches_def branch_names_def kept_True)
    have 1: "sha ` selected_commits rs branch \<subseteq> sha ` set ct"
      by (simp add: sel ct sort_by_date_desc_def new_firsts_shas)
    have 2: "collect_any rs False mc = Inr (filter (\<lambda>c. \<not> isMergeCommit c) ct)"
      if "sha_decides_merge (selected_commits rs branch)"
    proof -
      from that sel have "sha_decides_merge (set ?A)" by simp
      then have f: "new_firsts {} (kept False ?A) = filter (\<lambda>c. \<not> isMergeCommit c) (new_firsts {} ?A)"
        by (simp add: kept_False new_firsts_filter)
      from below ct have "int (length (new_firsts {} ?A)) < mc"
        by (simp add: sort_by_date_desc_def)
      moreover
      have "length (filter (\<lambda>c. \<not> isMergeCommit c) (new_firsts {} ?A)) \<le> length (new_firsts {} ?A)"
        by (rule length_filter_le)
      ultimately have "int (length (filter (\<lambda>c. \<not> isMergeCommit c) (new_firsts {} ?A))) < mc"
        by linarith
      then have "int (length (new_firsts {} (kept False ?A))) < mc"
        by (simp only: f)
      from collect_any_uncapped[OF n l this]
      show ?thesis by (simp add: f ct sort_by_date_desc_def filter_sort)
    qed
    from 1 2 show ?thesis by blast
  qed
  have c_any: "collect_commits rs branch im' mc = collect_any rs im' mc" for im'
    using any by (simp add: collect_commits_def)
  show ?thesis unfolding c_any
  proof (rule conjI)
    show "\<forall>cf. collect_any rs False mc = Inr cf \<longrightarrow> (\<forall>c \<in> set cf. \<not> isMergeCommit c)"
      using no_merge by blast
    show "\<forall>ct. collect_any rs True mc = Inr ct \<and> int (length ct) < mc \<longrightarrow>
        sha ` selected_commits rs branch \<subseteq> sha ` set ct \<and>
        (sha_decides_merge (selected_commits rs branch) \<longrightarrow>
           collect_any rs False mc = Inr (filter (\<lambda>c. \<not> isMergeCommit c) ct))"
      using toggle by blast
  qed
next
  case single: False
  have no_merge: "\<not> isMergeCommit c" if run: "collect_single rs branch False mc = Inr cf" and c: "c \<in> set cf" for cf c
  proof -
    from run obtain listed where
      cf: "cf = slice0 (min mc (int (length listed))) (filter (\<lambda>c. \<not> isMergeCommit c) listed)"
      by (rule collect_single_listed) simp
    have "set cf \<subseteq> set (filter (\<lambda>c. \<not> isMergeCommit c) listed)"
      unfolding cf by (rule set_slice0)
    with c have "c \<in> set (filter (\<lambda>c. \<not> isMergeCommit c) listed)" by (rule rev_subsetD)
    then show ?thesis by simp
  qed
  have toggle: "sha ` selected_commits rs branch \<subseteq> sha ` set ct \<and>
      collect_single rs branch False mc = Inr (filter (\<lambda>c. \<not> isMergeCommit c) ct)"
    if run: "collect_single rs branch True mc = Inr ct" and below: "int (length ct) < mc" for ct
  proof -
    from run below have l: "listCommits rs (shaParam branch) = Inr ct"
      by (rule collect_single_below_cap)
    with single have "selected_commits rs branch = set ct"
      by (simp add: selected_commits_def selected_branches_def listed_by_def kept_True)
    moreover have "slice0 (min mc (int (length ct))) (filter (\<lambda>c. \<not> isMergeCommit c) ct) =
        filter (\<lambda>c. \<not> isMergeCommit c) ct"
      using below by (simp add: slice0_def)
    ultimately show ?thesis using l by (simp add: collect_single_def)
  qed
  have c_single: "collect_commits rs branch im' mc = collect_single rs branch im' mc" for im'
    using single by (simp add: collect_commits_def)
  show ?thesis unfolding c_single
  proof (rule conjI)
    show "\<forall>cf. collect_single rs branch False mc = Inr cf \<longrightarrow> (\<forall>c \<in> set cf. \<not> isMergeCommit c)"
      using no_merge by blast
    show "\<forall>ct. collect_single rs branch True mc = Inr ct \<and> int (length ct) < mc \<longrightarrow>
        sha ` selected_commits rs branch \<subseteq> sha ` set ct \<and>
        (sha_decides_merge (selected_commits rs branch) \<longrightarrow>
           collect_single rs branch False mc = Inr (filter (\<lambda>c. \<not> isMergeCommit c) ct))"
      using toggle by blast
  qed
qed

lemma sample_decides: "sha_decides_merge (selected_commits sample_repo (Some ANY_BRANCH))"
  by (simp add: selected_commits_def selected_branches_def sample_listed sha_decides_merge_def
      commit_at_def isMergeCommit_def)

theorem merge_filter_toggle_witness:
  "collect_commits sample_repo (Some ANY_BRANCH) True 60 =
     Inr [commit_at ''d1'' [''p''] 40, commit_at ''a1'' [''p''] 30,
          commit_at ''m1'' [''p'', ''q''] 20, commit_at ''b1'' [''p''] 10] \<and>
   collect_commits sample_repo (Some ANY_BRANCH) False 60 =
     Inr [commit_at ''d1'' [''p''] 40, commit_at ''a1'' [''p''] 30, commit_at ''b1'' [''p''] 10] \<and>
   \<not> isMergeCommit (commit_at ''b1'' [''p''] 10)"
proof -
  let ?out = "[commit_at ''d1'' [''p''] 40, commit_at ''a1'' [''p''] 30,
      commit_at ''m1'' [''p'', ''q''] 20, commit_at ''b1'' [''p''] 10]"
  have 1: "collect_commits sample_repo (Some ANY_BRANCH) True 60 = Inr ?out"
    by (simp add: sample_eval)
  have 2: "int (length ?out) < 60" by simp
  let ?kept = "[commit_at ''d1'' [''p''] 40, commit_at ''a1'' [''p''] 30, commit_at ''b1'' [''p''] 10]"
  note t = merge_filter_toggle[of sample_repo "Some ANY_BRANCH" 60]
  from t have "\<forall>ct. collect_commits sample_repo (Some ANY_BRANCH) True 60 = Inr ct \<and> int (length ct) < 60 \<longrightarrow>
      sha ` selected_commits sample_repo (Some ANY_BRANCH) \<subseteq> sha ` set ct \<and>
      (sha_decides_merge (selected_commits sample_repo (Some ANY_BRANCH)) \<longrightarrow>
         collect_commits sample_repo (Some ANY_BRANCH) False 60 = Inr (filter (\<lambda>c. \<not> isMergeCommit c) ct))"
    by (rule conjunct2)
  then have "collect_commits sample_repo (Some ANY_BRANCH) True 60 = Inr ?out \<and> int (length ?out) < 60 \<longrightarrow>
      sha ` selected_commits sample_repo (Some ANY_BRANCH) \<subseteq> sha ` set ?out \<and>
      (sha_decides_merge (selected_commits sample_repo (Some ANY_BRANCH)) \<longrightarrow>
         collect_commits sample_repo (Some ANY_BRANCH) False 60 = Inr (filter (\<lambda>c. \<not> isMergeCommit c) ?out))"
    by (rule spec)
  moreover from 1 2
  have "collect_commits sample_repo (Some ANY_BRANCH) True 60 = Inr ?out \<and> int (length ?out) < 60"
    by (rule conjI)
  ultimately have "sha ` selected_commits sample_repo (Some ANY_BRANCH) \<subseteq> sha ` set ?out \<and>
      (sha_decides_merge (selected_commits sample_repo (Some ANY_BRANCH)) \<longrightarrow>
         collect_commits sample_repo (Some ANY_BRANCH) False 60 = Inr (filter (\<lambda>c. \<not> isMergeCommit c) ?out))"
    by (rule mp)
  then have "sha_decides_merge (selected_commits sample_repo (Some ANY_BRANCH)) \<longrightarrow>
      collect_commits sample_repo (Some ANY_BRANCH) False 60 = Inr (filter (\<lambda>c. \<not> isMergeCommit c) ?out)"
    by (rule conjunct2)
  then have 3: "collect_commits sample_repo (Some ANY_BRANCH) False 60 =
      Inr (filter (\<lambda>c. \<not> isMergeCommit c) ?out)"
    using sample_decides by (rule mp)
  have "filter (\<lambda>c. \<not> isMergeCommit c) ?out = ?kept"
    by (simp add: commit_at_def isMergeCommit_def)
  with 3 have 4: "collect_commits sample_repo (Some ANY_BRANCH) False 60 = Inr ?kept"
    by (simp only:)
  from t have "\<forall>cf. collect_commits sample_repo (Some ANY_BRANCH) False 60 = Inr cf \<longrightarrow>
      (\<forall>c \<in> set cf. \<not> isMergeCommit c)"
    by (rule conjunct1)
  then have "collect_commits sample_repo (Some ANY_BRANCH) False 60 = Inr ?kept \<longrightarrow>
      (\<forall>c \<in> set ?kept. \<not> isMergeCommit c)"
    by (rule spec)
  from this 4 have "\<forall>c \<in> set ?kept. \<not> isMergeCommit c" by (rule mp)
  moreover have "commit_at ''b1'' [''p''] 10 \<in> set ?kept" by simp
  ultimately have 5: "\<not> isMergeCommit (commit_at ''b1'' [''p''] 10)" by (rule bspec)
  from 1 4 5 show ?thesis by (intro conjI)
qed

end
